theory Spec2Isabelle
  imports Main "HOL-Library.Word" "HOL-Library.Multiset"
begin

unbundle bit_operations_syntax

section \<open>Data model of the agent (src/agent/agent.c)\<close>

text \<open>
  \<open>jlong\<close> is a 64-bit and \<open>jint\<close> a 32-bit two's complement integer; arithmetic on
  them wraps, signed comparisons are written with \<open>sint\<close>.  A byte is an
  \<open>unsigned char\<close>.
\<close>

type_synonym jlong = "64 word"
type_synonym jint = "32 word"
type_synonym byte = "8 word"

text \<open>
  The native process: the globals of agent.c (\<open>g_jvmti\<close> is kept as "is not NULL",
  \<open>g_epoch\<close> and \<open>g_local_counter\<close> both start at 1) and the C allocator.  The
  allocator is an oracle: \<open>alloc_plan\<close> lists the outcomes of the coming
  \<open>malloc\<close>/\<open>calloc\<close>/\<open>realloc\<close> requests in order (\<open>False\<close> is a NULL return); once
  the plan is used up every request succeeds.  A request for more than \<open>PTRDIFF_MAX\<close>
  bytes (\<open>size_t\<close> is 64 bits wide) is one no allocator serves: it fails and leaves the
  plan as it is.
\<close>

record process =
  g_jvmti :: bool
  g_epoch :: jlong
  g_local_counter :: jlong
  alloc_plan :: "bool list"

definition initial_process :: "bool list \<Rightarrow> process" where
  "initial_process plan =
     \<lparr>g_jvmti = True, g_epoch = 1, g_local_counter = 1, alloc_plan = plan\<rparr>"

definition c_alloc :: "64 word \<Rightarrow> process \<Rightarrow> bool \<times> process" where
  "c_alloc nbytes p =
     (if nbytes > 0x7FFFFFFFFFFFFFFF then (False, p)
      else (case alloc_plan p of
              [] \<Rightarrow> (True, p)
            | ok # rest \<Rightarrow> (ok, p\<lparr>alloc_plan := rest\<rparr>)))"

text \<open>
  The managed heap as the agent sees it through JVMTI: every object has a tag slot and
  a class.  \<open>local_refs\<close> are the JNI local references to heap objects (by index in
  \<open>heap\<close>) that the native call currently holds.
\<close>

record obj =
  obj_tag :: jlong
  obj_class :: nat

record jvm =
  heap :: "obj list"
  local_refs :: "nat list"

subsection \<open>tag_collector_t and tag_add\<close>

text \<open>
  \<open>tags\<close> is the allocated array (\<open>[]\<close> for NULL); \<open>realloc\<close> keeps the old cells and
  the cells it adds are uninitialised in C: the model fills them with 0, and no code
  reads a cell at or after \<open>count\<close>.
\<close>

record tag_collector_t =
  tags :: "jlong list"
  count :: jint
  capacity :: jint
  alloc_failed :: bool

definition empty_collector :: tag_collector_t where
  "empty_collector = \<lparr>tags = [], count = 0, capacity = 0, alloc_failed = False\<rparr>"

text \<open>
  \<open>realloc\<close> to \<open>nbytes\<close> bytes of an array of 8-byte cells: the cells kept and the
  cells added.
\<close>

definition resize :: "nat \<Rightarrow> 'a \<Rightarrow> 'a list \<Rightarrow> 'a list" where
  "resize n fill xs = take n xs @ replicate (n - length xs) fill"

definition tag_add :: "process \<Rightarrow> tag_collector_t \<Rightarrow> jlong \<Rightarrow> int \<times> process \<times> tag_collector_t" where
  "tag_add p c tag =
     (if alloc_failed c then (-1, p, c)
      else if sint (count c) \<ge> sint (capacity c) then
        (let newCap = (if capacity c = 0 then 128 else capacity c * 2);
             nbytes = 8 * (scast newCap :: 64 word);
             (ok, p') = c_alloc nbytes p
         in if \<not> ok then (-1, p', c\<lparr>alloc_failed := True\<rparr>)
            else
              (let c' = c\<lparr>tags := resize (unat nbytes div 8) 0 (tags c), capacity := newCap\<rparr>
               in (0, p', c'\<lparr>tags := (tags c')[nat (sint (count c')) := tag],
                             count := count c' + 1\<rparr>)))
      else (0, p, c\<lparr>tags := (tags c)[nat (sint (count c)) := tag], count := count c + 1\<rparr>))"

subsection \<open>The heap callbacks\<close>

datatype jvmtiIterationControl = JVMTI_ITERATION_CONTINUE | JVMTI_ITERATION_ABORT

text \<open>
  A heap iteration callback gets the pointer to the visited object's tag slot
  (\<open>None\<close> for a NULL pointer, else the slot's value) and the user data, and returns the
  slot's new value with its verdict.
\<close>

type_synonym 'u heap_iteration_callback =
  "process \<Rightarrow> jlong option \<Rightarrow> 'u \<Rightarrow> jvmtiIterationControl \<times> process \<times> jlong option \<times> 'u"

definition clear_tag_cb :: "'u heap_iteration_callback" where
  "clear_tag_cb p tag_ptr user_data =
     (case tag_ptr of
        None \<Rightarrow> (JVMTI_ITERATION_CONTINUE, p, None, user_data)
      | Some v \<Rightarrow>
          if v \<noteq> 0 then (JVMTI_ITERATION_CONTINUE, p, Some 0, user_data)
          else (JVMTI_ITERATION_CONTINUE, p, Some v, user_data))"

text \<open>\<open>(((uint64_t)(uint32_t)g_epoch) << 32) | ((uint64_t)local & 0xFFFFFFFFULL)\<close>\<close>

definition make_tag :: "jlong \<Rightarrow> jlong \<Rightarrow> jlong" where
  "make_tag epoch local =
     push_bit 32 (ucast (ucast epoch :: 32 word) :: 64 word) OR (local AND 0xFFFFFFFF)"

definition heap_tagging_cb :: "tag_collector_t heap_iteration_callback" where
  "heap_tagging_cb p tag_ptr col =
     (case tag_ptr of
        None \<Rightarrow> (JVMTI_ITERATION_CONTINUE, p, None, col)
      | Some v \<Rightarrow>
          if v \<noteq> 0 then (JVMTI_ITERATION_CONTINUE, p, Some v, col)
          else
            (let local = g_local_counter p;
                 p1 = p\<lparr>g_local_counter := local + 1\<rparr>;
                 tag = make_tag (g_epoch p1) local;
                 (r, p2, col') = tag_add p1 col tag
             in if r \<noteq> 0 then (JVMTI_ITERATION_ABORT, p2, Some tag, col')
                else (JVMTI_ITERATION_CONTINUE, p2, Some tag, col')))"


section \<open>The runtime's capabilities\<close>

text \<open>
  What the agent consumes from the host runtime through \<open>g_jvmti\<close> and \<open>env\<close>.  The
  runtime is not part of agent.c; each capability that the code tests for failure is
  an oracle here, so that every error branch of the code is a branch of the model.
  A \<open>jstring\<close> and a \<open>const char*\<close> are the bytes they hold, a class is a number, an
  object reference is the object's index in the heap (\<open>None\<close> is a NULL reference).
\<close>

record runtime =
  IterateThroughHeap_error :: "nat option \<Rightarrow> bool"
  GetObjectsWithTags :: "obj list \<Rightarrow> jlong list \<Rightarrow> (nat option \<times> jlong) list option"
  GetStringUTFChars :: "byte list \<Rightarrow> byte list option"
  FindClass :: "byte list \<Rightarrow> nat option"
  GetMethodID :: bool
  GetObjectClass :: "nat \<Rightarrow> nat option"
  CallObjectMethod_getName :: "nat \<Rightarrow> byte list option"
  NewByteArray :: "nat \<Rightarrow> bool"
  NewObjectArray :: "nat \<Rightarrow> bool"
  uninitialised :: "nat \<Rightarrow> byte"

text \<open>
  \<open>uninitialised\<close> gives the byte found at each offset of a block that \<open>malloc\<close> has
  just returned: C leaves such a block uninitialised, so its contents are whatever the
  environment holds there.  \<open>malloc_block rt n\<close> is a fresh block of \<open>n\<close> bytes.
\<close>

definition malloc_block :: "runtime \<Rightarrow> nat \<Rightarrow> byte list" where
  "malloc_block rt n = map (uninitialised rt) [0..<n]"

text \<open>
  Modelled from the spec: the runtime's heap iteration primitive (JVMTI
  \<open>IterateThroughHeap\<close>), which is not in agent.c.  It visits the objects of the heap
  in order, only the instances of \<open>klass\<close> when a class is given, hands each one's tag
  slot to the callback and stores what the callback leaves there; it stops at the
  first visit that answers \<open>JVMTI_ITERATION_ABORT\<close>.  A request the runtime rejects
  visits nothing and reports an error (\<open>True\<close>).
\<close>

definition visited :: "nat option \<Rightarrow> obj \<Rightarrow> bool" where
  "visited klass ob = (case klass of None \<Rightarrow> True | Some k \<Rightarrow> obj_class ob = k)"

definition set_slot :: "obj \<Rightarrow> jlong option \<Rightarrow> obj" where
  "set_slot ob slot = (case slot of None \<Rightarrow> ob | Some t \<Rightarrow> ob\<lparr>obj_tag := t\<rparr>)"

fun visit_objects ::
  "'u heap_iteration_callback \<Rightarrow> nat option \<Rightarrow> obj list \<Rightarrow> process \<Rightarrow> 'u
     \<Rightarrow> obj list \<times> process \<times> 'u" where
  "visit_objects cb klass [] p u = ([], p, u)"
| "visit_objects cb klass (ob # obs) p u =
     (if visited klass ob then
        (case cb p (Some (obj_tag ob)) u of
           (ctl, p', slot, u') \<Rightarrow>
             if ctl = JVMTI_ITERATION_ABORT then (set_slot ob slot # obs, p', u')
             else (case visit_objects cb klass obs p' u' of
                     (obs', p'', u'') \<Rightarrow> (set_slot ob slot # obs', p'', u'')))
      else (case visit_objects cb klass obs p u of
              (obs', p', u') \<Rightarrow> (ob # obs', p', u')))"

definition IterateThroughHeap ::
  "runtime \<Rightarrow> nat option \<Rightarrow> 'u heap_iteration_callback \<Rightarrow> 'u \<Rightarrow> process \<Rightarrow> jvm
     \<Rightarrow> bool \<times> process \<times> jvm \<times> 'u" where
  "IterateThroughHeap rt klass cb u p j =
     (if IterateThroughHeap_error rt klass then (True, p, j, u)
      else (case visit_objects cb klass (heap j) p u of
              (obs', p', u') \<Rightarrow> (False, p', j\<lparr>heap := obs'\<rparr>, u')))"

subsection \<open>clear_all_tags\<close>

definition clear_all_tags :: "runtime \<Rightarrow> process \<Rightarrow> jvm \<Rightarrow> process \<times> jvm" where
  "clear_all_tags rt p j =
     (if \<not> g_jvmti p then (p, j)
      else (case IterateThroughHeap rt None clear_tag_cb () p j of
              (err, p', j', u) \<Rightarrow> (p', j')))"


section \<open>JNI entry points\<close>

subsection \<open>References and tag resolution\<close>

definition DeleteLocalRef :: "nat \<Rightarrow> jvm \<Rightarrow> jvm" where
  "DeleteLocalRef ob j = j\<lparr>local_refs := remove1 ob (local_refs j)\<rparr>"

text \<open>\<open>if (o) DeleteLocalRef(o)\<close> for each cell of an array of references.\<close>

fun delete_refs :: "nat option list \<Rightarrow> jvm \<Rightarrow> jvm" where
  "delete_refs [] j = j"
| "delete_refs (None # os) j = delete_refs os j"
| "delete_refs (Some ob # os) j = delete_refs os (DeleteLocalRef ob j)"

text \<open>
  A call of \<open>GetObjectsWithTags\<close>: on success the caller holds a new local reference for
  every object returned; the two output arrays are kept as one list of pairs
  (\<open>objects[i]\<close>, \<open>tagsOut[i]\<close>), and \<open>found\<close> is its length.
\<close>

definition get_objects :: "runtime \<Rightarrow> jvm \<Rightarrow> jlong list \<Rightarrow> (nat option \<times> jlong) list option \<times> jvm" where
  "get_objects rt j ts =
     (case GetObjectsWithTags rt (heap j) ts of
        None \<Rightarrow> (None, j)
      | Some rs \<Rightarrow> (Some rs, j\<lparr>local_refs := local_refs j @ List.map_filter fst rs\<rparr>))"

text \<open>
  Modelled from the spec: the runtime's batch tag-to-reference resolution, which is
  not in agent.c: the objects of the heap that carry one of the given tags, each
  with its tag.
\<close>

definition objects_with_tags :: "obj list \<Rightarrow> jlong list \<Rightarrow> (nat option \<times> jlong) list option" where
  "objects_with_tags h ts =
     Some (map (\<lambda>i. (Some i, obj_tag (h ! i)))
            (filter (\<lambda>i. obj_tag (h ! i) \<in> set ts) [0..<length h]))"

text \<open>The identifiers a collector hands to the resolution: \<open>col.tags[0 .. col.count)\<close>.\<close>

definition collected_tags :: "tag_collector_t \<Rightarrow> jlong list" where
  "collected_tags col = take (nat (sint (count col))) (tags col)"

subsection \<open>nativeSnapshotBytes\<close>

text \<open>
  A store through a pointer into a \<open>malloc\<close>ed block.  A store outside the block is
  undefined behaviour in C; the model stops there with a fault.
\<close>

datatype fault = Store_out_of_bounds

definition store :: "byte list \<Rightarrow> nat \<Rightarrow> byte \<Rightarrow> byte list option" where
  "store buf i v = (if i < length buf then Some (buf[i := v]) else None)"

fun memcpy :: "byte list \<Rightarrow> nat \<Rightarrow> byte list \<Rightarrow> byte list option" where
  "memcpy buf p [] = Some buf"
| "memcpy buf p (x # xs) = Option.bind (store buf p x) (\<lambda>buf'. memcpy buf' (Suc p) xs)"

text \<open>\<open>p[0] = (x >> 24) & 0xFF; ... p[3] = x & 0xFF\<close> on a signed 32-bit \<open>x\<close>.\<close>

definition put_jint :: "byte list \<Rightarrow> nat \<Rightarrow> jint \<Rightarrow> byte list option" where
  "put_jint buf p x =
     Option.bind (store buf p (ucast (signed_drop_bit 24 x AND 0xFF))) (\<lambda>b0.
     Option.bind (store b0 (p + 1) (ucast (signed_drop_bit 16 x AND 0xFF))) (\<lambda>b1.
     Option.bind (store b1 (p + 2) (ucast (signed_drop_bit 8 x AND 0xFF))) (\<lambda>b2.
     store b2 (p + 3) (ucast (x AND 0xFF)))))"

text \<open>\<open>for (int b = 7; b >= 0; b--) { p[b] = ut & 0xFF; ut >>= 8; }\<close>\<close>

fun put_tag :: "byte list \<Rightarrow> nat \<Rightarrow> nat \<Rightarrow> 64 word \<Rightarrow> byte list option" where
  "put_tag buf p 0 ut = store buf p (ucast (ut AND 0xFF))"
| "put_tag buf p (Suc b) ut =
     Option.bind (store buf (p + Suc b) (ucast (ut AND 0xFF)))
       (\<lambda>buf'. put_tag buf' p b (drop_bit 8 ut))"

text \<open>The record loop of the encoder (lines 357-377), \<open>p\<close> an offset into \<open>buf\<close>.\<close>

fun encode_records ::
  "byte list \<Rightarrow> nat \<Rightarrow> jlong list \<Rightarrow> jint list \<Rightarrow> byte list option list \<Rightarrow> byte list option" where
  "encode_records buf p (t # tagsOut) (l # lens) (n # names) =
     Option.bind (put_tag buf p 7 t) (\<lambda>b1.
     Option.bind (put_jint b1 (p + 8) l) (\<lambda>b2.
       (case n of
          Some name \<Rightarrow>
            if sint l > 0 then
              Option.bind (memcpy b2 (p + 12) (take (nat (sint l)) name))
                (\<lambda>b3. encode_records b3 (p + 12 + nat (sint l)) tagsOut lens names)
            else encode_records b2 (p + 12) tagsOut lens names
        | None \<Rightarrow> encode_records b2 (p + 12) tagsOut lens names)))"
| "encode_records buf p tagsOut lens names = Some buf"

text \<open>Lines 349-377: the count, then the records.\<close>

definition encode_snapshot ::
  "byte list \<Rightarrow> jint \<Rightarrow> jlong list \<Rightarrow> jint list \<Rightarrow> byte list option list \<Rightarrow> byte list option" where
  "encode_snapshot buf be_count tagsOut lens names =
     Option.bind (put_jint buf 0 be_count) (\<lambda>b. encode_records b 4 tagsOut lens names)"

text \<open>Lines 202-214: the identifiers collected by the pass are resolved to references.\<close>

definition resolve_tags :: "runtime \<Rightarrow> tag_collector_t \<Rightarrow> jvm \<Rightarrow> (nat option \<times> jlong) list \<times> jvm" where
  "resolve_tags rt col j =
     (if sint (count col) > 0 then
        (case get_objects rt j (collected_tags col) of
           (None, j') \<Rightarrow> ([], j')
         | (Some rs, j') \<Rightarrow> (rs, j'))
      else ([], j))"

text \<open>Lines 237-250: \<open>names\<close> and \<open>lens\<close> are allocated when something was found.\<close>

definition alloc_names :: "nat \<Rightarrow> process \<Rightarrow> bool \<times> process" where
  "alloc_names found p =
     (if found > 0 then
        (case c_alloc (of_nat found * 8) p of
           (ok1, p1) \<Rightarrow> (case c_alloc (of_nat found * 4) p1 of
                          (ok2, p2) \<Rightarrow> (ok1 \<and> ok2, p2)))
      else (True, p))"

definition strlen :: "byte list \<Rightarrow> nat" where
  "strlen cn = length (takeWhile (\<lambda>b. b \<noteq> 0) cn)"

text \<open>
  The body of the loop over the objects found (lines 253-320), for \<open>objects[i]\<close>: the
  name and the length stored in \<open>names[i]\<close> and \<open>lens[i]\<close> and the new value of
  \<open>total\<close>.  The result is \<open>None\<close> where the copy of the name cannot be allocated and
  the function returns NULL.  An entry whose name cannot be obtained gets a NULL name of
  length 0 and the body goes on to the next object with \<open>continue\<close>, before \<open>total\<close> is
  increased.
\<close>

definition name_entry ::
  "runtime \<Rightarrow> nat option \<Rightarrow> process \<Rightarrow> jvm \<Rightarrow> 64 word
     \<Rightarrow> (byte list option \<times> jint \<times> 64 word) option \<times> process \<times> jvm" where
  "name_entry rt obj p j total_size =
     (case obj of
        None \<Rightarrow> (Some (None, 0, total_size), p, j)
      | Some ob \<Rightarrow>
          (case GetObjectClass rt ob of
             None \<Rightarrow> (Some (None, 0, total_size), p, DeleteLocalRef ob j)
           | Some oc \<Rightarrow>
               (case CallObjectMethod_getName rt oc of
                  None \<Rightarrow> (Some (None, 0, total_size), p, DeleteLocalRef ob j)
                | Some jn \<Rightarrow>
                    (case GetStringUTFChars rt jn of
                       None \<Rightarrow> (Some (None, 0, total_size), p, DeleteLocalRef ob j)
                     | Some cn \<Rightarrow>
                         (let len = (word_of_nat (strlen cn) :: jint) in
                          if sint len > 0 then
                            (case c_alloc (scast len) p of
                               (ok, p') \<Rightarrow>
                                 if \<not> ok then (None, p', DeleteLocalRef ob j)
                                 else (Some (Some (take (nat (sint len)) cn), len,
                                             total_size + 8 + 4 + scast len),
                                       p', DeleteLocalRef ob j))
                          else (Some (None, len, total_size + 8 + 4 + scast len),
                                p, DeleteLocalRef ob j))))))"

text \<open>
  The loop \<open>for (i = 0; i < found; i++)\<close> of line 252.  \<open>names\<close> and \<open>lens\<close> are the cells
  written so far, \<open>total_size\<close> (\<open>total\<close> in the source) the size computed so far.
\<close>

fun collect_names ::
  "runtime \<Rightarrow> nat option list \<Rightarrow> process \<Rightarrow> jvm \<Rightarrow> byte list option list \<Rightarrow> jint list \<Rightarrow> 64 word
     \<Rightarrow> (byte list option list \<times> jint list \<times> 64 word) option \<times> process \<times> jvm" where
  "collect_names rt [] p j names lens total_size = (Some (names, lens, total_size), p, j)"
| "collect_names rt (obj # objects) p j names lens total_size =
     (case name_entry rt obj p j total_size of
        (None, p', j') \<Rightarrow> (None, p', j')
      | (Some (name, len, total_size'), p', j') \<Rightarrow>
          collect_names rt objects p' j' (names @ [name]) (lens @ [len]) total_size')"

definition bytes_of :: "string \<Rightarrow> byte list" where
  "bytes_of s = map (\<lambda>c. of_nat (of_char c)) s"

text \<open>
  The body of \<open>nativeSnapshotBytes\<close> is kept in three parts, in the order of the source.
  Lines 323-411: the size check, the output buffer (a fresh \<open>malloc\<close>ed block, whose
  bytes are uninitialised), the encoding and the Java array.
\<close>

definition snapshot_output ::
  "runtime \<Rightarrow> (nat option \<times> jlong) list \<Rightarrow> byte list option list \<Rightarrow> jint list \<Rightarrow> 64 word
     \<Rightarrow> process \<Rightarrow> jvm \<Rightarrow> fault + (byte list option \<times> process \<times> jvm)" where
  "snapshot_output rt resolved names lens total_size p j =
     (if total_size > 0x7FFFFFFF then Inr (None, p, j)
      else
        (case c_alloc total_size p of
           (ok, p') \<Rightarrow>
             if \<not> ok then Inr (None, p', j)
             else
               (case encode_snapshot (malloc_block rt (unat total_size))
                       (word_of_nat (length resolved)) (map snd resolved) lens names of
                  None \<Rightarrow> Inl Store_out_of_bounds
                | Some buf \<Rightarrow>
                    if \<not> NewByteArray rt (unat total_size) then Inr (None, p', j)
                    else Inr (Some buf, p', j))))"

text \<open>Lines 216-321: the lookups of \<open>java/lang/Class\<close> and \<open>getName\<close>, then the names.\<close>

definition snapshot_names ::
  "runtime \<Rightarrow> (nat option \<times> jlong) list \<Rightarrow> process \<Rightarrow> jvm
     \<Rightarrow> fault + (byte list option \<times> process \<times> jvm)" where
  "snapshot_names rt resolved p j =
     (if FindClass rt (bytes_of ''java/lang/Class'') = None then Inr (None, p, j)
      else if \<not> GetMethodID rt then Inr (None, p, j)
      else
        (case alloc_names (length resolved) p of
           (ok, p') \<Rightarrow>
             if \<not> ok then Inr (None, p', j)
             else
               (case collect_names rt (map fst resolved) p' j [] [] 4 of
                  (None, p'', j') \<Rightarrow> Inr (None, p'', j')
                | (Some (names, lens, total_size), p'', j') \<Rightarrow>
                    snapshot_output rt resolved names lens total_size p'' j')))"

text \<open>Lines 175-214: the clear pass, the tagging pass and the resolution.\<close>

definition nativeSnapshotBytes ::
  "runtime \<Rightarrow> bool \<Rightarrow> byte list option \<Rightarrow> process \<Rightarrow> jvm
     \<Rightarrow> fault + (byte list option \<times> process \<times> jvm)" where
  "nativeSnapshotBytes rt env jClassName p j =
     (case jClassName of
        None \<Rightarrow> Inr (None, p, j)
      | Some jcn \<Rightarrow>
          if \<not> g_jvmti p \<or> \<not> env then Inr (None, p, j)
          else
            (case clear_all_tags rt p j of
               (p1, j1) \<Rightarrow>
                 (let p2 = p1\<lparr>g_local_counter := 1\<rparr> in
                  (case GetStringUTFChars rt jcn of
                     None \<Rightarrow> Inr (None, p2, j1)
                   | Some className \<Rightarrow>
                       (case FindClass rt className of
                          None \<Rightarrow> Inr (None, p2, j1)
                        | Some targetClass \<Rightarrow>
                            (case IterateThroughHeap rt (Some targetClass) heap_tagging_cb
                                    empty_collector p2 j1 of
                               (err, p3, j3, col) \<Rightarrow>
                                 (case resolve_tags rt col j3 of
                                    (resolved, j4) \<Rightarrow> snapshot_names rt resolved p3 j4)))))))"

subsection \<open>nativeResolve\<close>

definition nativeResolve ::
  "runtime \<Rightarrow> bool \<Rightarrow> jlong \<Rightarrow> process \<Rightarrow> jvm \<Rightarrow> nat option \<times> process \<times> jvm" where
  "nativeResolve rt env tag p j =
     (if \<not> g_jvmti p \<or> \<not> env then (None, p, j)
      else
        (case get_objects rt j [tag] of
           (None, j') \<Rightarrow> (None, p, j')
         | (Some objs, j') \<Rightarrow>
             (case objs of
                [] \<Rightarrow> (None, p, j')
              | first # others \<Rightarrow> (fst first, p, delete_refs (map fst others) j'))))"

subsection \<open>nativeWalkHeap\<close>

definition nativeWalkHeap ::
  "runtime \<Rightarrow> bool \<Rightarrow> process \<Rightarrow> jvm \<Rightarrow> nat option list option \<times> process \<times> jvm" where
  "nativeWalkHeap rt env p j =
     (if \<not> g_jvmti p \<or> \<not> env then (None, p, j)
      else
        (case clear_all_tags rt p j of
           (p1, j1) \<Rightarrow>
             (let p2 = p1\<lparr>g_local_counter := 1\<rparr> in
              (case IterateThroughHeap rt None heap_tagging_cb empty_collector p2 j1 of
                 (err, p3, j3, col) \<Rightarrow>
                   if sint (count col) \<le> 0 then (None, p3, j3)
                   else
                     (case get_objects rt j3 (collected_tags col) of
                        (None, j4) \<Rightarrow> (None, p3, j4)
                      | (Some resolved, j4) \<Rightarrow>
                          if FindClass rt (bytes_of ''java/lang/Object'') = None
                          then (None, p3, j4)
                          else if \<not> NewObjectArray rt (length resolved) then (None, p3, j4)
                          else (Some (map fst resolved), p3,
                                delete_refs (map fst resolved) j4))))))"

subsection \<open>nativeWalkHeapFiltered\<close>

text \<open>\<open>for (i = 0; i < found; i++) collected[collectedCount++] = objs[i];\<close>\<close>

fun append_refs :: "nat option list \<Rightarrow> nat option list \<Rightarrow> jint \<Rightarrow> nat option list \<times> jint" where
  "append_refs [] collected collectedCount = (collected, collectedCount)"
| "append_refs (ob # objs) collected collectedCount =
     append_refs objs (collected[nat (sint collectedCount) := ob]) (collectedCount + 1)"

text \<open>
  The body of the loop over the class names (lines 556-648), for one class name.  The
  state of the loop is the reference buffer \<open>collected\<close> with \<open>collectedCount\<close> and
  \<open>collectedCap\<close>.  The result is \<open>None\<close> where the body returns NULL from the
  function, and the state for the next class name otherwise (also after \<open>continue\<close>).
\<close>

definition walk_class ::
  "runtime \<Rightarrow> byte list option \<Rightarrow> process \<Rightarrow> jvm \<Rightarrow> nat option list \<Rightarrow> jint \<Rightarrow> jint
     \<Rightarrow> (nat option list \<times> jint \<times> jint) option \<times> process \<times> jvm" where
  "walk_class rt jName p j collected collectedCount collectedCap =
     (case Option.bind (Option.bind jName (GetStringUTFChars rt)) (FindClass rt) of
        None \<Rightarrow> (Some (collected, collectedCount, collectedCap), p, j)
      | Some targetClass \<Rightarrow>
          (let p1 = p\<lparr>g_epoch := g_epoch p + 1\<rparr>;
               p2 = p1\<lparr>g_local_counter := 1\<rparr>
           in
           (case IterateThroughHeap rt (Some targetClass) heap_tagging_cb empty_collector p2 j of
              (err, p3, j3, col) \<Rightarrow>
                if err then (Some (collected, collectedCount, collectedCap), p3, j3)
                else if sint (count col) \<le> 0
                then (Some (collected, collectedCount, collectedCap), p3, j3)
                else
                  (case get_objects rt j3 (collected_tags col) of
                     (None, j4) \<Rightarrow> (Some (collected, collectedCount, collectedCap), p3, j4)
                   | (Some resolved, j4) \<Rightarrow>
                       (let objs = map fst resolved;
                            found = (word_of_nat (length objs) :: jint)
                        in
                        if sint found > 0 then
                          if sint (collectedCount + found) > sint collectedCap then
                            (let newCap = (if collectedCap = 0 then found + 64
                                           else collectedCap * 2 + found);
                                 nbytes = 8 * (scast newCap :: 64 word)
                             in
                             (case c_alloc nbytes p3 of
                                (ok, p4) \<Rightarrow>
                                  if \<not> ok then (None, p4, delete_refs objs j4)
                                  else
                                    (case append_refs objs
                                            (resize (unat nbytes div 8) None collected)
                                            collectedCount of
                                       (collected', collectedCount') \<Rightarrow>
                                         (Some (collected', collectedCount', newCap), p4, j4))))
                          else
                            (case append_refs objs collected collectedCount of
                               (collected', collectedCount') \<Rightarrow>
                                 (Some (collected', collectedCount', collectedCap), p3, j4))
                        else (Some (collected, collectedCount, collectedCap), p3, j4))))))"

text \<open>The loop \<open>for (ci = 0; ci < nClasses; ci++)\<close> (line 555).\<close>

fun walk_classes ::
  "runtime \<Rightarrow> byte list option list \<Rightarrow> process \<Rightarrow> jvm \<Rightarrow> nat option list \<Rightarrow> jint \<Rightarrow> jint
     \<Rightarrow> (nat option list \<times> jint \<times> jint) option \<times> process \<times> jvm" where
  "walk_classes rt [] p j collected collectedCount collectedCap =
     (Some (collected, collectedCount, collectedCap), p, j)"
| "walk_classes rt (jName # classNames) p j collected collectedCount collectedCap =
     (case walk_class rt jName p j collected collectedCount collectedCap of
        (None, p', j') \<Rightarrow> (None, p', j')
      | (Some (collected', collectedCount', collectedCap'), p', j') \<Rightarrow>
          walk_classes rt classNames p' j' collected' collectedCount' collectedCap')"

text \<open>Lines 546-554 and 651-682.\<close>

definition nativeWalkHeapFiltered ::
  "runtime \<Rightarrow> bool \<Rightarrow> byte list option list option \<Rightarrow> process \<Rightarrow> jvm
     \<Rightarrow> nat option list option \<times> process \<times> jvm" where
  "nativeWalkHeapFiltered rt env classNamesArray p j =
     (case classNamesArray of
        None \<Rightarrow> (None, p, j)
      | Some classNames \<Rightarrow>
          if \<not> g_jvmti p \<or> \<not> env then (None, p, j)
          else if length classNames = 0 then (None, p, j)
          else
            (case walk_classes rt classNames p j [] 0 0 of
               (None, p', j') \<Rightarrow> (None, p', j')
             | (Some (collected, collectedCount, collectedCap), p', j') \<Rightarrow>
                 (let refs = take (nat (sint collectedCount)) collected in
                  if collectedCount = 0 then (None, p', j')
                  else if FindClass rt (bytes_of ''java/lang/Object'') = None
                  then (None, p', delete_refs refs j')
                  else if \<not> NewObjectArray rt (nat (sint collectedCount))
                  then (None, p', delete_refs refs j')
                  else (Some refs, p', delete_refs refs j'))))"

subsection \<open>nativeAdvanceEpoch\<close>

definition nativeAdvanceEpoch :: "process \<Rightarrow> process" where
  "nativeAdvanceEpoch p = p\<lparr>g_epoch := g_epoch p + 1\<rparr>"

section \<open>Notions used in the statements\<close>

text \<open>
  An object is eligible in a pass when the pass visits it and its slot is empty.
  \<open>retag klass e c m obs\<close> gives the first \<open>m\<close> eligible objects of \<open>obs\<close> the
  identifiers made from epoch \<open>e\<close> and the counter values \<open>c\<close>, \<open>c + 1\<close>, ... and
  leaves every other object as it is.  \<open>col_inv c n\<close> says that a collector that has
  not failed holds \<open>n\<close> identifiers in an array of at least \<open>n\<close> cells, its sizes below
  \<open>2^31\<close>.
\<close>

definition eligible :: "nat option \<Rightarrow> obj \<Rightarrow> bool" where
  "eligible klass ob \<longleftrightarrow> visited klass ob \<and> obj_tag ob = 0"

fun retag :: "nat option \<Rightarrow> jlong \<Rightarrow> jlong \<Rightarrow> nat \<Rightarrow> obj list \<Rightarrow> obj list" where
  "retag klass e c 0 obs = obs"
| "retag klass e c (Suc m) [] = []"
| "retag klass e c (Suc m) (ob # obs) =
     (if eligible klass ob then ob\<lparr>obj_tag := make_tag e c\<rparr> # retag klass e (c + 1) m obs
      else ob # retag klass e c (Suc m) obs)"

definition col_inv :: "tag_collector_t \<Rightarrow> nat \<Rightarrow> bool" where
  "col_inv c n \<longleftrightarrow>
     \<not> alloc_failed c \<and> count c = of_nat n \<and>
     (\<exists>cap. capacity c = of_nat cap \<and> n \<le> cap \<and> cap < 2 ^ 31 \<and> length (tags c) = cap)"

text \<open>The number of eligible objects before position \<open>i\<close>.\<close>

definition rank :: "nat option \<Rightarrow> obj list \<Rightarrow> nat \<Rightarrow> nat" where
  "rank klass obs i = length (filter (eligible klass) (take i obs))"

definition fresh_heap :: "obj list" where
  "fresh_heap = [\<lparr>obj_tag = 0, obj_class = 1\<rparr>, \<lparr>obj_tag = 0, obj_class = 2\<rparr>,
                 \<lparr>obj_tag = 0, obj_class = 1\<rparr>]"

subsection \<open>The wire format\<close>

text \<open>
  The wire format in the words of the specification: a 4-byte big-endian count, then
  for every entry the 8-byte big-endian identifier, the 4-byte big-endian length of the
  class name and the bytes of the name, with no terminator.
\<close>

definition be32 :: "32 word \<Rightarrow> byte list" where
  "be32 x = [ucast (drop_bit 24 x), ucast (drop_bit 16 x), ucast (drop_bit 8 x), ucast x]"

definition be64 :: "64 word \<Rightarrow> byte list" where
  "be64 x = [ucast (drop_bit 56 x), ucast (drop_bit 48 x), ucast (drop_bit 40 x),
             ucast (drop_bit 32 x), ucast (drop_bit 24 x), ucast (drop_bit 16 x),
             ucast (drop_bit 8 x), ucast x]"

definition wire_record :: "jlong \<times> byte list \<Rightarrow> byte list" where
  "wire_record e = be64 (fst e) @ be32 (of_nat (length (snd e))) @ snd e"

definition wire_snapshot :: "(jlong \<times> byte list) list \<Rightarrow> byte list" where
  "wire_snapshot es = be32 (of_nat (length es)) @ concat (map wire_record es)"

text \<open>
  What the record loop of the encoder stores for one entry, and the effect of storing
  a run of bytes at an offset of a block: the block with the run in place, or a fault
  when the run does not fit.
\<close>

definition record_bytes :: "jlong \<times> jint \<times> byte list option \<Rightarrow> byte list" where
  "record_bytes e =
     (case e of (t, l, n) \<Rightarrow>
        be64 t @ be32 l @
        (case n of Some name \<Rightarrow> if sint l > 0 then take (nat (sint l)) name else []
                 | None \<Rightarrow> []))"

definition write_at :: "byte list \<Rightarrow> nat \<Rightarrow> byte list \<Rightarrow> byte list option" where
  "write_at buf p bs =
     (if p + length bs \<le> length buf then Some (take p buf @ bs @ drop (p + length bs) buf)
      else None)"

text \<open>
  The class name that the runtime gives for an object reference, when every lookup on
  the way succeeds, and the bytes of it that \<open>strlen\<close> and \<open>memcpy\<close> take: the bytes
  before the first NUL.
\<close>

definition resolved_name :: "runtime \<Rightarrow> nat option \<Rightarrow> byte list option" where
  "resolved_name rt obj =
     Option.bind obj (\<lambda>ob.
     Option.bind (GetObjectClass rt ob) (\<lambda>oc.
     Option.bind (CallObjectMethod_getName rt oc) (GetStringUTFChars rt)))"

definition display_name :: "runtime \<Rightarrow> nat option \<Rightarrow> byte list" where
  "display_name rt obj =
     (case resolved_name rt obj of None \<Rightarrow> [] | Some cn \<Rightarrow> takeWhile (\<lambda>b. b \<noteq> 0) cn)"

definition named :: "runtime \<Rightarrow> nat option \<Rightarrow> bool" where
  "named rt obj \<longleftrightarrow>
     (\<exists>cn. resolved_name rt obj = Some cn \<and> 0 < strlen cn \<and> strlen cn < 2 ^ 31)"

definition names_fit :: "jint list \<Rightarrow> byte list option list \<Rightarrow> bool" where
  "names_fit ls ns \<longleftrightarrow>
     (\<forall>e \<in> set (zip ls ns). \<forall>name. snd e = Some name \<longrightarrow> nat (sint (fst e)) \<le> length name)"

text \<open>The size of the snapshot of a list of resolved objects, in bytes.\<close>

definition snapshot_size :: "runtime \<Rightarrow> nat option list \<Rightarrow> nat" where
  "snapshot_size rt objs = 4 + sum_list (map (\<lambda>obj. 12 + length (display_name rt obj)) objs)"

text \<open>The bytes that the size pre-pass counts for an object.\<close>

definition counted :: "runtime \<Rightarrow> nat option \<Rightarrow> nat" where
  "counted rt obj = (if named rt obj then 12 + length (display_name rt obj) else 0)"


section \<open>Concrete instances\<close>

text \<open>
  A runtime in which every capability succeeds, over a heap \<open>h\<close> with two classes:
  class 1 is named \<open>A\<close>, class 2 is named \<open>B\<close>; every other name resolves to class 0,
  which has no display name.  Every byte of a fresh block holds \<open>0xAA\<close>.
\<close>

definition demo_runtime :: "obj list \<Rightarrow> runtime" where
  "demo_runtime h =
     \<lparr>IterateThroughHeap_error = (\<lambda>klass. False),
      GetObjectsWithTags = objects_with_tags,
      GetStringUTFChars = Some,
      FindClass = (\<lambda>n. if n = bytes_of ''A'' then Some 1
                       else if n = bytes_of ''B'' then Some 2 else Some 0),
      GetMethodID = True,
      GetObjectClass = (\<lambda>i. if i < length h then Some (obj_class (h ! i)) else None),
      CallObjectMethod_getName = (\<lambda>c. if c = 1 then Some (bytes_of ''A'')
                                       else if c = 2 then Some (bytes_of ''B'') else None),
      NewByteArray = (\<lambda>n. True),
      NewObjectArray = (\<lambda>n. True),
      uninitialised = (\<lambda>i. 0xAA)\<rparr>"

definition demo_heap :: "obj list" where
  "demo_heap = [\<lparr>obj_tag = 7, obj_class = 1\<rparr>, \<lparr>obj_tag = 0, obj_class = 2\<rparr>,
                \<lparr>obj_tag = 0, obj_class = 1\<rparr>]"

section \<open>The allocator and the callbacks\<close>

lemma c_alloc_globals:
  "c_alloc n p = (ok, p') \<Longrightarrow>
     g_epoch p' = g_epoch p \<and> g_local_counter p' = g_local_counter p \<and> g_jvmti p' = g_jvmti p"
  by (auto simp: c_alloc_def split: if_splits list.splits)

lemma tag_add_globals:
  "tag_add p c t = (r, p', c') \<Longrightarrow>
     g_epoch p' = g_epoch p \<and> g_local_counter p' = g_local_counter p \<and> g_jvmti p' = g_jvmti p"
  by (auto simp: tag_add_def Let_def split: if_splits prod.splits dest: c_alloc_globals)

lemma heap_tagging_cb_untouched:
  "tag_ptr \<noteq> Some 0 \<Longrightarrow>
     heap_tagging_cb p tag_ptr col = (JVMTI_ITERATION_CONTINUE, p, tag_ptr, col)"
  by (cases tag_ptr) (auto simp: heap_tagging_cb_def)

lemma heap_tagging_cb_tags:
  assumes "heap_tagging_cb p (Some 0) col = (ctl, p', slot, col')"
  shows "slot = Some (make_tag (g_epoch p) (g_local_counter p))"
    and "g_local_counter p' = g_local_counter p + 1"
    and "g_epoch p' = g_epoch p" and "g_jvmti p' = g_jvmti p"
  using assms
  by (auto simp: heap_tagging_cb_def Let_def split: prod.splits if_splits dest: tag_add_globals)

subsection \<open>The identifier\<close>

lemma low_mask: "(0xFFFFFFFF :: 64 word) = mask 32"
  by (simp add: mask_eq_exp_minus_1)

lemma unat_take_bit_32: "unat (take_bit 32 (l :: 64 word)) = unat l mod 2 ^ 32"
proof -
  have "unat (take_bit 32 l) = take_bit 32 (unat l)" by (rule unsigned_take_bit_eq)
  then show ?thesis by (simp only: take_bit_eq_mod)
qed

lemma ucast_down_up: "(ucast (ucast (e :: 64 word) :: 32 word) :: 64 word) = take_bit 32 e"
  by (rule bit_word_eqI) (auto simp add: bit_simps)

lemma make_tag_high: "drop_bit 32 (make_tag e l) = e AND 0xFFFFFFFF"
  unfolding make_tag_def low_mask
  by (rule bit_word_eqI) (auto simp add: bit_simps)

lemma make_tag_low: "make_tag e l AND 0xFFFFFFFF = l AND 0xFFFFFFFF"
  unfolding make_tag_def low_mask
  by (rule bit_word_eqI) (auto simp add: bit_simps)

lemma make_tag_masked: "make_tag e l = push_bit 32 (e AND 0xFFFFFFFF) OR (l AND 0xFFFFFFFF)"
  unfolding make_tag_def low_mask
  by (rule bit_word_eqI) (auto simp add: bit_simps)

lemma make_tag_unat:
  "unat (make_tag e l) = (unat e mod 2 ^ 32) * 2 ^ 32 + unat l mod 2 ^ 32"
proof -
  let ?hi = "push_bit 32 (take_bit 32 e)"
  let ?lo = "take_bit 32 l"
  have d: "?hi AND ?lo = 0"
    by (rule bit_word_eqI) (auto simp add: bit_simps)
  have eq: "make_tag e l = ?hi + ?lo"
    unfolding make_tag_def low_mask ucast_down_up take_bit_eq_mask [symmetric]
    using disjunctive_add_eq_or [OF d] by simp
  have lo: "unat ?lo = unat l mod 2 ^ 32"
    by (rule unat_take_bit_32)
  have "unat ?hi = take_bit LENGTH(64) (push_bit 32 (unat (take_bit 32 e)))"
    by (rule unsigned_push_bit_eq)
  then have "unat ?hi = take_bit LENGTH(64) (push_bit 32 (unat e mod 2 ^ 32))"
    by (simp only: unat_take_bit_32)
  then have hi: "unat ?hi = (unat e mod 2 ^ 32) * 2 ^ 32"
    by (simp add: take_bit_eq_mod push_bit_eq_mult)
  have "unat (?hi + ?lo) = unat ?hi + unat ?lo"
    by (rule unat_add_lem [THEN iffD1]) (simp add: hi lo)
  then show ?thesis using eq hi lo by simp
qed

text \<open>
  C3.  Every identifier that \<open>heap_tagging_cb\<close> assigns is \<open>(epoch << 32) | local\<close> with
  both parts masked to 32 bits first: the callback assigns only to an empty slot (a
  NULL pointer or a non-zero slot is left as it is), and what it stores there has the
  low 32 bits of \<open>g_epoch\<close> as its high word and the low 32 bits of the value fetched
  from \<open>g_local_counter\<close> as its low word, so that a counter at or above \<open>2^32\<close> wraps
  into the low word; the counter is incremented by the fetch.
\<close>

theorem heap_tagging_cb_identifier:
  assumes "heap_tagging_cb p tag_ptr col = (ctl, p', slot, col')"
  shows "(tag_ptr \<noteq> Some 0 \<longrightarrow> slot = tag_ptr \<and> p' = p) \<and>
         (tag_ptr = Some 0 \<longrightarrow>
            (\<exists>t. slot = Some t \<and>
                 t = push_bit 32 (g_epoch p AND 0xFFFFFFFF) OR (g_local_counter p AND 0xFFFFFFFF) \<and>
                 drop_bit 32 t = g_epoch p AND 0xFFFFFFFF \<and>
                 t AND 0xFFFFFFFF = g_local_counter p AND 0xFFFFFFFF \<and>
                 unat t = (unat (g_epoch p) mod 2 ^ 32) * 2 ^ 32
                            + unat (g_local_counter p) mod 2 ^ 32) \<and>
            g_local_counter p' = g_local_counter p + 1)"
proof (cases "tag_ptr = Some 0")
  case True
  with assms have run: "heap_tagging_cb p (Some 0) col = (ctl, p', slot, col')" by simp
  let ?t = "make_tag (g_epoch p) (g_local_counter p)"
  have "slot = Some ?t" by (rule heap_tagging_cb_tags(1) [OF run])
  moreover have "g_local_counter p' = g_local_counter p + 1"
    by (rule heap_tagging_cb_tags(2) [OF run])
  ultimately show ?thesis
    using True make_tag_masked [of "g_epoch p" "g_local_counter p"]
      make_tag_high [of "g_epoch p" "g_local_counter p"]
      make_tag_low [of "g_epoch p" "g_local_counter p"]
      make_tag_unat [of "g_epoch p" "g_local_counter p"]
    by simp
next
  case False
  from heap_tagging_cb_untouched [OF False, of p col] assms show ?thesis
    using False by simp
qed

theorem heap_tagging_cb_identifier_witness:
  "(case heap_tagging_cb (initial_process []\<lparr>g_epoch := 3, g_local_counter := 0x100000002\<rparr>)
           (Some 0) empty_collector of
      (ctl, p', slot, col') \<Rightarrow>
        slot = Some 0x300000002 \<and> g_local_counter p' = 0x100000003)
   \<and> drop_bit 32 (0x300000002 :: jlong) = 3 \<and> (0x300000002 :: jlong) AND 0xFFFFFFFF = 2"
proof -
  let ?p = "initial_process []\<lparr>g_epoch := 3, g_local_counter := 0x100000002\<rparr>"
  obtain ctl p' slot col' where
    run: "heap_tagging_cb ?p (Some 0) empty_collector = (ctl, p', slot, col')"
    by (cases "heap_tagging_cb ?p (Some 0) empty_collector") auto
  have e: "g_epoch ?p = 3" and l: "g_local_counter ?p = 0x100000002"
    by (simp_all add: initial_process_def)
  have v: "push_bit 32 ((3 :: jlong) AND 0xFFFFFFFF) OR (0x100000002 AND 0xFFFFFFFF) = 0x300000002"
    by simp
  from heap_tagging_cb_identifier [OF run]
  have "slot = Some (push_bit 32 (g_epoch ?p AND 0xFFFFFFFF) OR (g_local_counter ?p AND 0xFFFFFFFF))"
    and "g_local_counter p' = g_local_counter ?p + 1"
    by blast+
  then have "slot = Some 0x300000002" and "g_local_counter p' = 0x100000003"
    unfolding e l v by simp_all
  then show ?thesis
    unfolding run by simp
qed

section \<open>The clear pass\<close>

lemma visit_clear:
  "visit_objects clear_tag_cb None obs p u = (map (\<lambda>ob. ob\<lparr>obj_tag := 0\<rparr>) obs, p, u)"
  by (induction obs) (auto simp: visited_def clear_tag_cb_def set_slot_def)

lemma clear_all_tags_eq:
  "clear_all_tags rt p j =
     (p, if g_jvmti p \<and> \<not> IterateThroughHeap_error rt None
         then j\<lparr>heap := map (\<lambda>ob. ob\<lparr>obj_tag := 0\<rparr>) (heap j)\<rparr> else j)"
  by (simp add: clear_all_tags_def IterateThroughHeap_def visit_clear)

text \<open>
  C8.  \<open>clear_all_tags\<close> is idempotent: a second clear pass right after a first one
  leaves the process and every object as the first one left them.  After a clear pass
  that ran (the agent is initialised and the runtime accepts the iteration) every tag
  slot is 0, and \<open>clear_tag_cb\<close> leaves a slot that holds 0 as it is, so the second
  pass changes nothing.
\<close>

theorem clear_all_tags_idempotent:
  "(case clear_all_tags rt p j of (p1, j1) \<Rightarrow> clear_all_tags rt p1 j1) = clear_all_tags rt p j \<and>
   (g_jvmti p \<and> \<not> IterateThroughHeap_error rt None \<longrightarrow>
      (\<forall>ob \<in> set (heap (snd (clear_all_tags rt p j))). obj_tag ob = 0)) \<and>
   clear_tag_cb p (Some 0) u = (JVMTI_ITERATION_CONTINUE, p, Some 0, u) \<and>
   (v \<noteq> 0 \<longrightarrow> clear_tag_cb p (Some v) u = (JVMTI_ITERATION_CONTINUE, p, Some 0, u))"
  by (simp add: clear_all_tags_eq clear_tag_cb_def)

theorem clear_all_tags_idempotent_witness:
  "clear_all_tags (demo_runtime demo_heap) (initial_process [])
       \<lparr>heap = demo_heap, local_refs = []\<rparr>
     = (initial_process [],
        \<lparr>heap = [\<lparr>obj_tag = 0, obj_class = 1\<rparr>, \<lparr>obj_tag = 0, obj_class = 2\<rparr>,
                 \<lparr>obj_tag = 0, obj_class = 1\<rparr>], local_refs = []\<rparr>)
   \<and> clear_all_tags (demo_runtime demo_heap) (initial_process [])
       \<lparr>heap = [\<lparr>obj_tag = 0, obj_class = 1\<rparr>, \<lparr>obj_tag = 0, obj_class = 2\<rparr>,
                \<lparr>obj_tag = 0, obj_class = 1\<rparr>], local_refs = []\<rparr>
     = (initial_process [],
        \<lparr>heap = [\<lparr>obj_tag = 0, obj_class = 1\<rparr>, \<lparr>obj_tag = 0, obj_class = 2\<rparr>,
                 \<lparr>obj_tag = 0, obj_class = 1\<rparr>], local_refs = []\<rparr>)
   \<and> clear_tag_cb (initial_process []) (Some 7) () =
       (JVMTI_ITERATION_CONTINUE, initial_process [], Some 0, ())"
proof -
  have ok: "g_jvmti (initial_process []) \<and>
            \<not> IterateThroughHeap_error (demo_runtime demo_heap) None"
    by (simp add: initial_process_def demo_runtime_def)
  have first: "clear_all_tags (demo_runtime demo_heap) (initial_process [])
       \<lparr>heap = demo_heap, local_refs = []\<rparr>
     = (initial_process [],
        \<lparr>heap = [\<lparr>obj_tag = 0, obj_class = 1\<rparr>, \<lparr>obj_tag = 0, obj_class = 2\<rparr>,
                 \<lparr>obj_tag = 0, obj_class = 1\<rparr>], local_refs = []\<rparr>)"
    using ok by (simp add: clear_all_tags_eq demo_heap_def)
  from clear_all_tags_idempotent [of "demo_runtime demo_heap" "initial_process []"
      "\<lparr>heap = demo_heap, local_refs = []\<rparr>" "()" 7]
  show ?thesis using ok first by simp
qed

section \<open>The tagging pass\<close>

lemma sint_of_nat_small:
  assumes "n < 2 ^ 31"
  shows "sint (of_nat n :: 32 word) = int n"
proof -
  have "signed_take_bit 31 (int n) = int n"
    by (rule signed_take_bit_int_eq_self) (use assms in simp_all)
  then show ?thesis
    by (simp add: signed_of_nat)
qed

lemma sint_of_nat_big:
  assumes "2 ^ 31 \<le> n" "n < 2 ^ 32"
  shows "sint (of_nat n :: 32 word) = int n - 2 ^ 32"
proof -
  have lo: "0 \<le> int n + 2 ^ 31 - 2 ^ 32" and hi: "int n + 2 ^ 31 - 2 ^ 32 < 2 ^ 32"
    using assms by simp_all
  have "(int n + 2 ^ 31) mod 2 ^ 32 = (int n + 2 ^ 31 - 2 ^ 32) mod 2 ^ 32"
    by (metis mod_diff_right_eq mod_self diff_zero)
  also have "\<dots> = int n + 2 ^ 31 - 2 ^ 32"
    by (rule mod_pos_pos_trivial [OF lo hi])
  finally have "take_bit 32 (int n + 2 ^ 31) = int n + 2 ^ 31 - 2 ^ 32"
    by (simp only: take_bit_eq_mod)
  then have "signed_take_bit 31 (int n) = int n - 2 ^ 32"
    by (simp add: signed_take_bit_eq_take_bit_shift)
  then show ?thesis
    by (simp add: signed_of_nat)
qed

lemma scast_of_nat_small:
  "n < 2 ^ 31 \<Longrightarrow> (scast (of_nat n :: 32 word) :: 64 word) = of_nat n"
  by (simp add: scast_eq sint_of_nat_small)

lemma unat_bytes:
  assumes "n < 2 ^ 31"
  shows "unat (8 * (of_nat n :: 64 word)) = 8 * n"
proof -
  have "unat (of_nat (8 * n) :: 64 word) = (8 * n) mod 2 ^ LENGTH(64)"
    by (rule unat_of_nat)
  also have "\<dots> = 8 * n" using assms by simp
  finally have "unat (of_nat (8 * n) :: 64 word) = 8 * n" .
  moreover have "(of_nat (8 * n) :: 64 word) = 8 * of_nat n" by simp
  ultimately show ?thesis by (simp only:)
qed

lemma unat_bytes_div:
  assumes "n < 2 ^ 31"
  shows "unat (8 * (of_nat n :: 64 word)) div 8 = n"
proof -
  have "(8 * n) div 8 = n" by simp
  then show ?thesis by (simp only: unat_bytes [OF assms])
qed

lemma bytes_small:
  assumes "n < 2 ^ 31"
  shows "\<not> 8 * (of_nat n :: 64 word) > 0x7FFFFFFFFFFFFFFF"
proof -
  have "unat (0x7FFFFFFFFFFFFFFF :: 64 word) = 0x7FFFFFFFFFFFFFFF" by simp
  moreover have "8 * n < 0x7FFFFFFFFFFFFFFF" using assms by simp
  ultimately show ?thesis
    by (simp only: word_less_nat_alt unat_bytes [OF assms])
qed

lemma bytes_big:
  assumes "2 ^ 31 \<le> n" "n < 2 ^ 32"
  shows "8 * (scast (of_nat n :: 32 word) :: 64 word) > 0x7FFFFFFFFFFFFFFF"
proof -
  have "(scast (of_nat n :: 32 word) :: 64 word) = word_of_int (int n - 2 ^ 32)"
    by (simp only: scast_eq sint_of_nat_big [OF assms])
  moreover have "8 * (word_of_int (int n - 2 ^ 32) :: 64 word) = word_of_int (8 * (int n - 2 ^ 32))"
    by simp
  ultimately have eq: "8 * (scast (of_nat n :: 32 word) :: 64 word) = word_of_int (8 * (int n - 2 ^ 32))"
    by (simp only:)
  have lo: "0 \<le> 2 ^ 64 + 8 * (int n - 2 ^ 32)" and hi: "2 ^ 64 + 8 * (int n - 2 ^ 32) < 2 ^ 64"
    using assms by simp_all
  have "(8 * (int n - 2 ^ 32)) mod 2 ^ 64 = (2 ^ 64 + 8 * (int n - 2 ^ 32)) mod 2 ^ 64"
    by (metis mod_add_self1)
  also have "\<dots> = 2 ^ 64 + 8 * (int n - 2 ^ 32)"
    by (rule mod_pos_pos_trivial [OF lo hi])
  finally have m: "(8 * (int n - 2 ^ 32)) mod 2 ^ 64 = 2 ^ 64 + 8 * (int n - 2 ^ 32)" .
  have "uint (word_of_int (8 * (int n - 2 ^ 32)) :: 64 word) = (8 * (int n - 2 ^ 32)) mod 2 ^ LENGTH(64)"
    by (simp only: uint_word_of_int take_bit_eq_mod)
  then have u: "uint (word_of_int (8 * (int n - 2 ^ 32)) :: 64 word) = 2 ^ 64 + 8 * (int n - 2 ^ 32)"
    using m by simp
  have "uint (0x7FFFFFFFFFFFFFFF :: 64 word) = 0x7FFFFFFFFFFFFFFF" by simp
  moreover have "(0x7FFFFFFFFFFFFFFF :: int) < 2 ^ 64 + 8 * (int n - 2 ^ 32)"
    using assms by simp
  ultimately show ?thesis
    by (simp only: eq word_less_def u)
qed

lemma of_nat_32_eq_0: "n < 2 ^ 31 \<Longrightarrow> (of_nat n :: 32 word) = 0 \<longleftrightarrow> n = 0"
  by (simp add: word_of_nat_eq_0_iff) (auto dest: dvd_imp_le)

lemma col_inv_sint:
  assumes "col_inv c n"
  shows "sint (count c) = int n" and "n < 2 ^ 31"
proof -
  from assms obtain cap where "count c = of_nat n" "n \<le> cap" "cap < 2 ^ 31"
    by (auto simp: col_inv_def)
  then show "n < 2 ^ 31" by simp
  then show "sint (count c) = int n"
    using \<open>count c = of_nat n\<close> by (simp add: sint_of_nat_small)
qed

lemma collected_tags_inv:
  "col_inv c n \<Longrightarrow> collected_tags c = take n (tags c)"
  by (simp add: collected_tags_def col_inv_sint(1))

lemma c_alloc_too_big:
  "nbytes > 0x7FFFFFFFFFFFFFFF \<Longrightarrow> c_alloc nbytes p = (False, p)"
  by (simp add: c_alloc_def)

lemma tag_add_inv:
  assumes inv: "col_inv c n" and run: "tag_add p c t = (r, p', c')"
  shows "(r = 0 \<and> col_inv c' (Suc n) \<and> collected_tags c' = collected_tags c @ [t]) \<or>
         (r = - 1 \<and> c' = c\<lparr>alloc_failed := True\<rparr>)"
proof -
  from inv obtain cap where
    nf: "\<not> alloc_failed c" and cnt: "count c = of_nat n" and cap: "capacity c = of_nat cap"
    and le: "n \<le> cap" and capb: "cap < 2 ^ 31" and len: "length (tags c) = cap"
    by (auto simp: col_inv_def)
  have nb: "n < 2 ^ 31" using le capb by simp
  have scnt: "sint (count c) = int n" by (simp add: cnt sint_of_nat_small [OF nb])
  have scap: "sint (capacity c) = int cap" by (simp add: cap sint_of_nat_small [OF capb])
  have old: "collected_tags c = take n (tags c)"
    by (simp add: collected_tags_def scnt)
  show ?thesis
  proof (cases "n < cap")
    case True
    then have c': "c' = c\<lparr>tags := (tags c)[n := t], count := count c + 1\<rparr>" and r: "r = 0"
      using run nf scnt scap by (simp_all add: tag_add_def)
    have sn: "Suc n < 2 ^ 31" using True capb by simp
    have cnt': "count c' = of_nat (Suc n)" by (simp add: c' cnt)
    have "col_inv c' (Suc n)"
      unfolding col_inv_def using cnt' nf cap True capb len by (auto simp: c')
    moreover have "collected_tags c' = take n (tags c) @ [t]"
    proof -
      have "sint (count c') = int (Suc n)"
        by (simp only: cnt' sint_of_nat_small [OF sn])
      moreover have "tags c' = (tags c)[n := t]" by (simp add: c')
      ultimately have "collected_tags c' = take (Suc n) ((tags c)[n := t])"
        by (simp only: collected_tags_def nat_int)
      then show ?thesis using True len by (simp add: take_Suc_conv_app_nth)
    qed
    ultimately show ?thesis using r old by simp
  next
    case False
    then have eq: "n = cap" using le by simp
    define N where "N = (if cap = 0 then 128 else 2 * cap)"
    have newCap: "(if capacity c = 0 then 128 else capacity c * 2) = (of_nat N :: 32 word)"
      using capb by (simp add: cap N_def of_nat_32_eq_0)
    have Nb: "N < 2 ^ 32" using capb by (simp add: N_def)
    have grow: "sint (count c) \<ge> sint (capacity c)" using scnt scap eq by simp
    show ?thesis
    proof (cases "N < 2 ^ 31")
      case False
      then have "8 * (scast (of_nat N :: 32 word) :: 64 word) > 0x7FFFFFFFFFFFFFFF"
        using Nb by (intro bytes_big) simp_all
      then have "c_alloc (8 * (scast (of_nat N :: 32 word) :: 64 word)) p = (False, p)"
        by (rule c_alloc_too_big)
      then show ?thesis
        using run nf grow newCap by (simp add: tag_add_def Let_def)
    next
      case True
      have sc: "(scast (of_nat N :: 32 word) :: 64 word) = of_nat N"
        by (rule scast_of_nat_small [OF True])
      obtain ok p1 where al: "c_alloc (8 * (of_nat N :: 64 word)) p = (ok, p1)"
        by (cases "c_alloc (8 * (of_nat N :: 64 word)) p") auto
      show ?thesis
      proof (cases ok)
        case False
        then show ?thesis
          using run nf grow newCap al sc by (simp add: tag_add_def Let_def)
      next
        case ok: True
        let ?ts = "resize N 0 (tags c)"
        have c': "c' = c\<lparr>tags := ?ts[n := t], capacity := of_nat N, count := count c + 1\<rparr>"
          and r: "r = 0"
          using run nf grow newCap al sc ok scnt
          by (auto simp add: tag_add_def Let_def unat_bytes_div [OF True])
        have nN: "n < N" using eq by (simp add: N_def)
        have lts: "length ?ts = N" by (simp add: resize_def)
        have tk: "take n ?ts = take n (tags c)"
          using nN len eq by (simp add: resize_def)
        have sn: "Suc n < 2 ^ 31" using nN True by simp
        have cnt': "count c' = of_nat (Suc n)" by (simp add: c' cnt)
        have "col_inv c' (Suc n)"
          unfolding col_inv_def using cnt' nf nN True lts
          by (auto simp: c' intro!: exI [of _ N])
        moreover have "collected_tags c' = take n (tags c) @ [t]"
        proof -
          have "sint (count c') = int (Suc n)"
            by (simp only: cnt' sint_of_nat_small [OF sn])
          moreover have "tags c' = ?ts[n := t]" by (simp add: c')
          ultimately have "collected_tags c' = take (Suc n) (?ts[n := t])"
            by (simp only: collected_tags_def nat_int)
          then show ?thesis using nN lts tk by (simp add: take_Suc_conv_app_nth)
        qed
        ultimately show ?thesis using r old by simp
      qed
    qed
  qed
qed

lemma retag_skip:
  "\<not> eligible klass ob \<Longrightarrow> retag klass e c m (ob # obs) = ob # retag klass e c m obs"
  by (cases m) auto

lemma set_slot_same: "set_slot ob (Some (obj_tag ob)) = ob"
  by (simp add: set_slot_def)

lemma heap_tagging_cb_nonzero:
  "v \<noteq> 0 \<Longrightarrow> heap_tagging_cb p (Some v) col = (JVMTI_ITERATION_CONTINUE, p, Some v, col)"
  by (simp add: heap_tagging_cb_def)

lemma tagging_walk:
  "visit_objects heap_tagging_cb klass obs p col = (obs', p', col') \<Longrightarrow>
   \<exists>m \<le> length (filter (eligible klass) obs).
      obs' = retag klass (g_epoch p) (g_local_counter p) m obs \<and>
      g_epoch p' = g_epoch p \<and> g_jvmti p' = g_jvmti p \<and>
      g_local_counter p' = g_local_counter p + of_nat m"
proof (induction obs arbitrary: p col obs' p' col')
  case Nil
  then show ?case by auto
next
  case (Cons ob obs)
  show ?case
  proof (cases "eligible klass ob")
    case False
    obtain obs1 where
      rest: "visit_objects heap_tagging_cb klass obs p col = (obs1, p', col')"
      and obs': "obs' = ob # obs1"
      using Cons.prems False
      by (auto simp: eligible_def heap_tagging_cb_nonzero set_slot_same
          split: prod.splits if_splits)
    from Cons.IH [OF rest] obtain m where
      "m \<le> length (filter (eligible klass) obs)"
      "obs1 = retag klass (g_epoch p) (g_local_counter p) m obs"
      "g_epoch p' = g_epoch p" "g_jvmti p' = g_jvmti p"
      "g_local_counter p' = g_local_counter p + of_nat m"
      by blast
    then show ?thesis
      using False obs' by (intro exI [of _ m]) (simp add: retag_skip)
  next
    case True
    then have vis: "visited klass ob" and zero: "obj_tag ob = 0"
      by (simp_all add: eligible_def)
    obtain ctl p1 slot col1 where
      cb: "heap_tagging_cb p (Some 0) col = (ctl, p1, slot, col1)"
      by (cases "heap_tagging_cb p (Some 0) col") auto
    note facts = heap_tagging_cb_tags [OF cb]
    let ?ob' = "ob\<lparr>obj_tag := make_tag (g_epoch p) (g_local_counter p)\<rparr>"
    have slot: "set_slot ob slot = ?ob'"
      using facts(1) by (simp add: set_slot_def)
    show ?thesis
    proof (cases "ctl = JVMTI_ITERATION_ABORT")
      case True
      with Cons.prems vis zero cb slot
      have "obs' = ?ob' # obs" "p' = p1" by auto
      then show ?thesis
        using facts \<open>eligible klass ob\<close>
        by (intro exI [of _ 1]) simp
    next
      case False
      with Cons.prems vis zero cb slot obtain obs1 where
        rest: "visit_objects heap_tagging_cb klass obs p1 col1 = (obs1, p', col')"
        and obs': "obs' = ?ob' # obs1"
        by (auto split: prod.splits)
      from Cons.IH [OF rest] obtain m where
        "m \<le> length (filter (eligible klass) obs)"
        "obs1 = retag klass (g_epoch p1) (g_local_counter p1) m obs"
        "g_epoch p' = g_epoch p1" "g_jvmti p' = g_jvmti p1"
        "g_local_counter p' = g_local_counter p1 + of_nat m"
        by blast
      then show ?thesis
        using facts \<open>eligible klass ob\<close> obs'
        by (intro exI [of _ "Suc m"]) simp
    qed
  qed
qed

lemma heap_tagging_cb_unfold:
  "heap_tagging_cb p (Some 0) col =
     (case tag_add (p\<lparr>g_local_counter := g_local_counter p + 1\<rparr>) col
             (make_tag (g_epoch p) (g_local_counter p)) of
        (r, p2, col') \<Rightarrow>
          (if r \<noteq> 0 then JVMTI_ITERATION_ABORT else JVMTI_ITERATION_CONTINUE, p2,
           Some (make_tag (g_epoch p) (g_local_counter p)), col'))"
  by (simp add: heap_tagging_cb_def Let_def split: prod.splits)

lemma length_retag: "length (retag klass e c m obs) = length obs"
  by (induction klass e c m obs rule: retag.induct) auto

lemma rank_Cons_Suc:
  "rank klass (ob # obs) (Suc i) = (if eligible klass ob then Suc (rank klass obs i) else rank klass obs i)"
  by (simp add: rank_def)

lemma rank_0: "rank klass obs 0 = 0"
  by (simp add: rank_def)

lemma retag_nth:
  "i < length obs \<Longrightarrow>
   retag klass e c m obs ! i =
     (if eligible klass (obs ! i) \<and> rank klass obs i < m
      then (obs ! i)\<lparr>obj_tag := make_tag e (c + of_nat (rank klass obs i))\<rparr>
      else obs ! i)"
proof (induction klass e c m obs arbitrary: i rule: retag.induct)
  case (1 klass e c obs)
  then show ?case by simp
next
  case (2 klass e c m)
  then show ?case by simp
next
  case (3 klass e c m ob obs)
  show ?case
  proof (cases i)
    case 0
    then show ?thesis by (simp add: rank_0)
  next
    case (Suc i')
    with "3.prems" have i': "i' < length obs" by simp
    show ?thesis
    proof (cases "eligible klass ob")
      case True
      from "3.IH"(1) [OF True i'] show ?thesis
        using True Suc by (simp add: rank_Cons_Suc add.assoc)
    next
      case False
      from "3.IH"(2) [OF False i'] show ?thesis
        using False Suc by (simp add: rank_Cons_Suc)
    qed
  qed
qed

lemma tagging_walk_inv:
  assumes "visit_objects heap_tagging_cb klass obs p col = (obs', p', col')"
    and "col_inv col n" and "g_local_counter p = of_nat (Suc n)"
  shows "\<exists>m. obs' = retag klass (g_epoch p) (of_nat (Suc n)) m obs \<and>
             m \<le> length (filter (eligible klass) obs) \<and> n + m \<le> 2 ^ 31 \<and>
             g_local_counter p' = of_nat (Suc (n + m)) \<and>
             (alloc_failed col' \<longrightarrow>
                1 \<le> m \<and> sint (count col') = int (n + m) - 1 \<and>
                collected_tags col' =
                  collected_tags col @
                  map (\<lambda>k. make_tag (g_epoch p) (of_nat k)) [Suc n ..< n + m]) \<and>
             (\<not> alloc_failed col' \<longrightarrow>
                m = length (filter (eligible klass) obs) \<and> col_inv col' (n + m) \<and>
                collected_tags col' =
                  collected_tags col @
                  map (\<lambda>k. make_tag (g_epoch p) (of_nat k)) [Suc n ..< Suc (n + m)])"
  using assms
proof (induction obs arbitrary: p col n obs' p' col')
  case Nil
  then have "obs' = []" "col' = col" "p' = p" by simp_all
  moreover have "\<not> alloc_failed col" using Nil.prems(2) by (simp add: col_inv_def)
  moreover have "n \<le> 2 ^ 31" using col_inv_sint(2) [OF Nil.prems(2)] by simp
  ultimately show ?case using Nil.prems(2,3) by (intro exI [of _ 0]) (auto simp del: upt_Suc)
next
  case (Cons ob obs)
  let ?e = "g_epoch p"
  let ?f = "\<lambda>k. make_tag ?e (of_nat k)"
  show ?case
  proof (cases "eligible klass ob")
    case False
    obtain obs1 where
      rest: "visit_objects heap_tagging_cb klass obs p col = (obs1, p', col')"
      and obs': "obs' = ob # obs1"
      using Cons.prems(1) False
      by (auto simp: eligible_def heap_tagging_cb_nonzero set_slot_same
          split: prod.splits if_splits)
    from Cons.IH [OF rest Cons.prems(2) Cons.prems(3)] obtain m where
      m: "obs1 = retag klass ?e (of_nat (Suc n)) m obs"
         "m \<le> length (filter (eligible klass) obs)" "n + m \<le> 2 ^ 31"
         "g_local_counter p' = of_nat (Suc (n + m))"
         "alloc_failed col' \<longrightarrow>
            1 \<le> m \<and> sint (count col') = int (n + m) - 1 \<and>
            collected_tags col' = collected_tags col @ map ?f [Suc n ..< n + m]"
         "\<not> alloc_failed col' \<longrightarrow>
            m = length (filter (eligible klass) obs) \<and> col_inv col' (n + m) \<and>
            collected_tags col' = collected_tags col @ map ?f [Suc n ..< Suc (n + m)]"
      by blast
    show ?thesis
      apply (rule exI [of _ m])
      using m False obs' by (auto simp add: retag_skip simp del: upt_Suc)
  next
    case True
    then have vis: "visited klass ob" and zero: "obj_tag ob = 0"
      by (simp_all add: eligible_def)
    let ?t = "make_tag ?e (of_nat (Suc n))"
    let ?ob' = "ob\<lparr>obj_tag := ?t\<rparr>"
    let ?p1 = "p\<lparr>g_local_counter := g_local_counter p + 1\<rparr>"
    obtain r p2 col1 where ta: "tag_add ?p1 col ?t = (r, p2, col1)"
      by (cases "tag_add ?p1 col ?t") auto
    have cb: "heap_tagging_cb p (Some 0) col =
        (if r \<noteq> 0 then JVMTI_ITERATION_ABORT else JVMTI_ITERATION_CONTINUE, p2, Some ?t, col1)"
      using ta by (simp only: heap_tagging_cb_unfold Cons.prems(3)) simp
    have slot: "set_slot ob (Some ?t) = ?ob'" by (simp add: set_slot_def)
    have g2: "g_epoch p2 = ?e" "g_local_counter p2 = of_nat (Suc (Suc n))"
      using tag_add_globals [OF ta] Cons.prems(3) by simp_all
    have nb: "n < 2 ^ 31" by (rule col_inv_sint(2) [OF Cons.prems(2)])
    from tag_add_inv [OF Cons.prems(2) ta] show ?thesis
    proof
      assume ok: "r = 0 \<and> col_inv col1 (Suc n) \<and> collected_tags col1 = collected_tags col @ [?t]"
      then obtain obs1 where
        rest: "visit_objects heap_tagging_cb klass obs p2 col1 = (obs1, p', col')"
        and obs': "obs' = ?ob' # obs1"
        using Cons.prems(1) vis zero cb slot by (auto split: prod.splits)
      from ok have inv1: "col_inv col1 (Suc n)" by simp
      from Cons.IH [OF rest inv1 g2(2)] obtain m where
        m: "obs1 = retag klass ?e (of_nat (Suc (Suc n))) m obs"
           "m \<le> length (filter (eligible klass) obs)" "Suc n + m \<le> 2 ^ 31"
           "g_local_counter p' = of_nat (Suc (Suc n + m))"
           "alloc_failed col' \<longrightarrow>
              1 \<le> m \<and> sint (count col') = int (Suc n + m) - 1 \<and>
              collected_tags col' = collected_tags col1 @ map ?f [Suc (Suc n) ..< Suc n + m]"
           "\<not> alloc_failed col' \<longrightarrow>
              m = length (filter (eligible klass) obs) \<and> col_inv col' (Suc n + m) \<and>
              collected_tags col' =
                collected_tags col1 @ map ?f [Suc (Suc n) ..< Suc (Suc n + m)]"
        unfolding g2(1) by blast
      have c1: "collected_tags col1 = collected_tags col @ [?t]" using ok by simp
      have u1: "1 \<le> m \<Longrightarrow> [Suc n ..< n + Suc m] = Suc n # [Suc (Suc n) ..< Suc n + m]"
        by (simp add: upt_conv_Cons)
      have u2: "[Suc n ..< Suc (n + Suc m)] = Suc n # [Suc (Suc n) ..< Suc (Suc n + m)]"
        by (simp add: upt_conv_Cons)
      show ?thesis
      proof (cases "alloc_failed col'")
        case True
        with m(5) have f: "1 \<le> m" "sint (count col') = int (Suc n + m) - 1"
          "collected_tags col' = collected_tags col1 @ map ?f [Suc (Suc n) ..< Suc n + m]"
          by blast+
        have "collected_tags col' = collected_tags col @ map ?f [Suc n ..< n + Suc m]"
          unfolding f(3) c1 u1 [OF f(1)] by simp
        then show ?thesis
          apply (intro exI [of _ "Suc m"])
          using True m(1,2,3,4) f(1,2) obs' \<open>eligible klass ob\<close>
          by (auto simp del: upt_Suc)
      next
        case False
        with m(6) have f: "m = length (filter (eligible klass) obs)" "col_inv col' (Suc n + m)"
          "collected_tags col' = collected_tags col1 @ map ?f [Suc (Suc n) ..< Suc (Suc n + m)]"
          by blast+
        have "collected_tags col' = collected_tags col @ map ?f [Suc n ..< Suc (n + Suc m)]"
          unfolding f(3) c1 u2 by simp
        then show ?thesis
          apply (intro exI [of _ "Suc m"])
          using False m(1,3,4) f(1,2) obs' \<open>eligible klass ob\<close>
          by (auto simp del: upt_Suc)
      qed
    next
      assume bad: "r = - 1 \<and> col1 = col\<lparr>alloc_failed := True\<rparr>"
      then have "obs' = ?ob' # obs" "col' = col\<lparr>alloc_failed := True\<rparr>" "p' = p2"
        using Cons.prems(1) vis zero cb slot by auto
      moreover have "sint (count col) = int n" by (rule col_inv_sint(1) [OF Cons.prems(2)])
      moreover have "collected_tags (col\<lparr>alloc_failed := True\<rparr>) = collected_tags col"
        by (simp add: collected_tags_def)
      ultimately show ?thesis
        apply (intro exI [of _ 1])
        using \<open>eligible klass ob\<close> nb g2(2) by (auto simp del: upt_Suc)
    qed
  qed
qed

lemma rank_mono: "a \<le> b \<Longrightarrow> rank klass obs a \<le> rank klass obs b"
proof -
  assume "a \<le> b"
  then have "take a obs = take a (take b obs)" by (simp add: min_def)
  then have "filter (eligible klass) (take b obs) =
      filter (eligible klass) (take a obs) @ filter (eligible klass) (drop a (take b obs))"
    by (metis append_take_drop_id filter_append)
  then show ?thesis by (simp add: rank_def)
qed

lemma rank_Suc:
  "i < length obs \<Longrightarrow>
   rank klass obs (Suc i) = (if eligible klass (obs ! i) then Suc (rank klass obs i) else rank klass obs i)"
  by (simp add: rank_def take_Suc_conv_app_nth)

lemma rank_less:
  assumes "a < b" "a < length obs" "eligible klass (obs ! a)"
  shows "rank klass obs a < rank klass obs b"
proof -
  have "rank klass obs a < rank klass obs (Suc a)" using assms by (simp add: rank_Suc)
  also have "\<dots> \<le> rank klass obs b" using assms(1) by (intro rank_mono) simp
  finally show ?thesis .
qed

lemma rank_total: "length obs \<le> i \<Longrightarrow> rank klass obs i = length (filter (eligible klass) obs)"
  by (simp add: rank_def)

lemma rank_less_total:
  assumes "a < length obs" "eligible klass (obs ! a)"
  shows "rank klass obs a < length (filter (eligible klass) obs)"
proof -
  have "rank klass obs a < rank klass obs (Suc a)" using assms by (simp add: rank_Suc)
  also have "\<dots> \<le> rank klass obs (length obs)" using assms(1) by (intro rank_mono) simp
  finally show ?thesis by (simp add: rank_total)
qed

lemma nth_eligible:
  "k < length (filter (eligible klass) obs) \<Longrightarrow>
   \<exists>i < length obs. eligible klass (obs ! i) \<and> rank klass obs i = k"
proof (induction obs arbitrary: k)
  case Nil
  then show ?case by simp
next
  case (Cons ob obs)
  show ?case
  proof (cases "eligible klass ob \<and> k = 0")
    case True
    then show ?thesis by (intro exI [of _ 0]) (simp add: rank_0)
  next
    case False
    define k' where "k' = (if eligible klass ob then k - 1 else k)"
    have "k' < length (filter (eligible klass) obs)"
      using Cons.prems False by (auto simp: k'_def)
    from Cons.IH [OF this] obtain i where
      i: "i < length obs" "eligible klass (obs ! i)" "rank klass obs i = k'"
      by blast
    then show ?thesis
      using False by (intro exI [of _ "Suc i"]) (auto simp: rank_Cons_Suc k'_def)
  qed
qed

lemma unat_of_nat_64: "k < 2 ^ 32 \<Longrightarrow> unat (of_nat k :: 64 word) = k"
  by (simp add: unat_of_nat)

lemma make_tag_low_nat:
  assumes "k < 2 ^ 32"
  shows "unat (make_tag e (of_nat k)) mod 2 ^ 32 = k"
proof -
  have "unat (make_tag e (of_nat k)) = (unat e mod 2 ^ 32) * 2 ^ 32 + k mod 2 ^ 32"
    by (simp only: make_tag_unat unat_of_nat_64 [OF assms])
  then show ?thesis using assms by simp
qed

lemma make_tag_inj:
  "k1 < 2 ^ 32 \<Longrightarrow> k2 < 2 ^ 32 \<Longrightarrow> make_tag e (of_nat k1) = make_tag e (of_nat k2) \<Longrightarrow> k1 = k2"
  by (metis make_tag_low_nat)

lemma make_tag_nonzero:
  "0 < k \<Longrightarrow> k < 2 ^ 32 \<Longrightarrow> make_tag e (of_nat k) \<noteq> 0"
  using make_tag_low_nat [of k e] by auto

lemma col_inv_empty: "col_inv empty_collector 0"
  by (simp add: col_inv_def empty_collector_def)

lemma collected_tags_empty: "collected_tags empty_collector = []"
  by (simp add: collected_tags_def empty_collector_def)

lemma eligible_alt: "eligible klass = (\<lambda>ob. visited klass ob \<and> obj_tag ob = 0)"
  by (auto simp: eligible_def)

lemma visited_retag:
  "i < length obs \<Longrightarrow> visited klass (retag klass e c m obs ! i) = visited klass (obs ! i)"
  by (simp add: retag_nth visited_def split: option.splits)


lemma tag_add_fail:
  "tag_add p c t = (r, p', c') \<Longrightarrow> r \<noteq> 0 \<Longrightarrow>
     alloc_failed c' \<and> tags c' = tags c \<and> count c' = count c"
  by (auto simp: tag_add_def Let_def split: if_splits prod.splits)

lemma heap_tagging_cb_abort:
  assumes "heap_tagging_cb q (Some 0) c = (JVMTI_ITERATION_ABORT, q', slot, c')"
  shows "slot = Some (make_tag (g_epoch q) (g_local_counter q))"
    and "alloc_failed c'" and "collected_tags c' = collected_tags c"
proof -
  let ?q1 = "q\<lparr>g_local_counter := g_local_counter q + 1\<rparr>"
  let ?t = "make_tag (g_epoch q) (g_local_counter q)"
  obtain r q2 c2 where ta: "tag_add ?q1 c ?t = (r, q2, c2)"
    by (cases "tag_add ?q1 c ?t") auto
  with assms have r: "r \<noteq> 0" and c2: "c2 = c'" and slot: "slot = Some ?t"
    by (auto simp: heap_tagging_cb_unfold split: if_splits)
  from tag_add_fail [OF ta r] c2 show "alloc_failed c'" "collected_tags c' = collected_tags c"
    by (simp_all add: collected_tags_def)
  from slot show "slot = Some ?t" .
qed


lemmas pass_eval =
  IterateThroughHeap_def demo_runtime_def visited_def heap_tagging_cb_def Let_def make_tag_def
  tag_add_def c_alloc_def resize_def set_slot_def initial_process_def empty_collector_def
  fresh_heap_def


text \<open>
  C4.  Inside one tagging pass (the local counter is reset to 1 at its start and every
  identifier takes the value fetched from it, which the fetch increments) no two
  objects receive the same identifier, provided fewer than \<open>2^32\<close> objects are to be
  tagged in the pass: two different objects whose slots were empty before the pass and
  hold an identifier after it hold different identifiers.  This holds for every
  collector state, class filter and allocator behaviour.
\<close>

theorem tagging_pass_unique:
  assumes pass: "IterateThroughHeap rt klass heap_tagging_cb col (p\<lparr>g_local_counter := 1\<rparr>) j
                   = (err, p', j', col')"
    and few: "length (filter (\<lambda>ob. visited klass ob \<and> obj_tag ob = 0) (heap j)) < 2 ^ 32"
    and a: "a < length (heap j)" and b: "b < length (heap j)" and ab: "a \<noteq> b"
    and before: "obj_tag (heap j ! a) = 0" "obj_tag (heap j ! b) = 0"
    and after: "obj_tag (heap j' ! a) \<noteq> 0" "obj_tag (heap j' ! b) \<noteq> 0"
  shows "obj_tag (heap j' ! a) \<noteq> obj_tag (heap j' ! b)"
proof (cases "IterateThroughHeap_error rt klass")
  case True
  with pass have "j' = j" by (simp add: IterateThroughHeap_def)
  with before after show ?thesis by simp
next
  case False
  let ?p = "p\<lparr>g_local_counter := 1\<rparr>"
  let ?obs = "heap j"
  obtain obs' where
    walk: "visit_objects heap_tagging_cb klass ?obs ?p col = (obs', p', col')"
    and j': "heap j' = obs'"
    using pass False by (auto simp: IterateThroughHeap_def split: prod.splits)
  from tagging_walk [OF walk] obtain m where
    m: "m \<le> length (filter (eligible klass) ?obs)"
    and obs': "obs' = retag klass (g_epoch p) 1 m ?obs"
    by auto
  have mb: "m < 2 ^ 32" using m few by (simp add: eligible_alt)
  have tagged: "eligible klass (?obs ! i) \<and> rank klass ?obs i < m \<and>
      obj_tag (obs' ! i) = make_tag (g_epoch p) (of_nat (Suc (rank klass ?obs i)))"
    if "i < length ?obs" "obj_tag (?obs ! i) = 0" "obj_tag (obs' ! i) \<noteq> 0" for i
    using that by (auto simp: obs' retag_nth split: if_splits)
  from tagged [OF a before(1)] tagged [OF b before(2)] after
  have ea: "eligible klass (?obs ! a)" and ra: "rank klass ?obs a < m"
    and ta: "obj_tag (obs' ! a) = make_tag (g_epoch p) (of_nat (Suc (rank klass ?obs a)))"
    and eb: "eligible klass (?obs ! b)" and rb: "rank klass ?obs b < m"
    and tb: "obj_tag (obs' ! b) = make_tag (g_epoch p) (of_nat (Suc (rank klass ?obs b)))"
    by (simp_all add: j')
  have ne: "rank klass ?obs a \<noteq> rank klass ?obs b"
  proof (cases "a < b")
    case True
    from rank_less [OF True a ea] show ?thesis by simp
  next
    case False
    with ab have "b < a" by simp
    from rank_less [OF this b eb] show ?thesis by simp
  qed
  have "Suc (rank klass ?obs a) < 2 ^ 32" "Suc (rank klass ?obs b) < 2 ^ 32"
    using ra rb mb by simp_all
  then have "make_tag (g_epoch p) (of_nat (Suc (rank klass ?obs a)))
      \<noteq> make_tag (g_epoch p) (of_nat (Suc (rank klass ?obs b)))"
    using ne make_tag_inj by blast
  then show ?thesis by (simp only: j' ta tb) simp
qed


theorem tagging_pass_unique_witness:
  "(case IterateThroughHeap (demo_runtime fresh_heap) (Some 1) heap_tagging_cb empty_collector
           (initial_process []\<lparr>g_local_counter := 1\<rparr>) \<lparr>heap = fresh_heap, local_refs = []\<rparr> of
      (err, p', j', col') \<Rightarrow>
        map obj_tag (heap j') = [0x100000001, 0, 0x100000002] \<and>
        obj_tag (heap j' ! 0) \<noteq> obj_tag (heap j' ! 2))"
proof -
  let ?j = "\<lparr>heap = fresh_heap, local_refs = []\<rparr>"
  obtain err p' j' col' where
    run: "IterateThroughHeap (demo_runtime fresh_heap) (Some 1) heap_tagging_cb empty_collector
           (initial_process []\<lparr>g_local_counter := 1\<rparr>) ?j = (err, p', j', col')"
    by (cases "IterateThroughHeap (demo_runtime fresh_heap) (Some 1) heap_tagging_cb
           empty_collector (initial_process []\<lparr>g_local_counter := 1\<rparr>) ?j") auto
  have h: "map obj_tag (heap j') = [0x100000001, 0, 0x100000002]"
    using run by (auto simp add: pass_eval)
  have few: "length (filter (\<lambda>ob. visited (Some 1) ob \<and> obj_tag ob = 0) (heap ?j)) < 2 ^ 32"
    by (simp add: fresh_heap_def)
  have "obj_tag (heap j' ! 0) \<noteq> obj_tag (heap j' ! 2)"
    by (rule tagging_pass_unique [OF run few])
       (use h in \<open>auto simp add: fresh_heap_def list_eq_iff_nth_eq\<close>)
  with h show ?thesis unfolding run by simp
qed


text \<open>
  C5.  A tagging pass never assigns 0.  A pass as the entry points run it (local
  counter reset to 1, fresh collector) gives the first \<open>m\<close> eligible objects the
  identifiers of the counter values 1, ..., \<open>m\<close>; \<open>m\<close> is at most \<open>2^31\<close>, because the
  collector's 32-bit capacity cannot grow beyond that and the pass stops at the append
  that fails, so the low word of every identifier assigned is non-zero, whatever the
  epoch.  Hence no identifier collected is 0, and after a pass that ran to its end
  every object the pass visits (every object for the full walk, the instances of the
  class for a filtered walk) holds a non-zero tag.  Objects that the pass does not
  visit keep what they had: 0 there means untagged.
\<close>

theorem tagging_pass_never_zero:
  assumes pass: "IterateThroughHeap rt klass heap_tagging_cb empty_collector
                   (p\<lparr>g_local_counter := 1\<rparr>) j = (err, p', j', col)"
  shows "(\<exists>m \<le> 2 ^ 31. heap j' = retag klass (g_epoch p) 1 m (heap j) \<and>
             (\<forall>k < m. make_tag (g_epoch p) (1 + of_nat k) \<noteq> 0)) \<and>
         0 \<notin> set (collected_tags col) \<and>
         (\<not> err \<and> \<not> alloc_failed col \<longrightarrow>
            (\<forall>ob \<in> set (heap j'). visited klass ob \<longrightarrow> obj_tag ob \<noteq> 0))"
proof (cases "IterateThroughHeap_error rt klass")
  case True
  with pass have "j' = j" "col = empty_collector" "err"
    by (simp_all add: IterateThroughHeap_def)
  then show ?thesis
    by (simp add: collected_tags_empty) (intro exI [of _ 0], simp)
next
  case False
  let ?p = "p\<lparr>g_local_counter := 1\<rparr>"
  let ?obs = "heap j"
  let ?e = "g_epoch p"
  obtain obs' where
    walk: "visit_objects heap_tagging_cb klass ?obs ?p empty_collector = (obs', p', col)"
    and j': "heap j' = obs'"
    using pass False by (auto simp: IterateThroughHeap_def split: prod.splits)
  have cnt: "g_local_counter ?p = of_nat (Suc 0)" by simp
  from tagging_walk_inv [OF walk col_inv_empty cnt] obtain m where
    obs': "obs' = retag klass ?e 1 m ?obs"
    and mb: "m \<le> 2 ^ 31"
    and failed: "alloc_failed col \<longrightarrow>
       collected_tags col = map (\<lambda>k. make_tag ?e (of_nat k)) [Suc 0 ..< m]"
    and compl: "\<not> alloc_failed col \<longrightarrow>
       m = length (filter (eligible klass) ?obs) \<and>
       collected_tags col = map (\<lambda>k. make_tag ?e (of_nat k)) [Suc 0 ..< Suc m]"
    by (auto simp: collected_tags_empty simp del: upt_Suc)
  have nz: "make_tag ?e (of_nat k) \<noteq> 0" if "0 < k" "k \<le> m" for k
    using that mb by (intro make_tag_nonzero) simp_all
  have one: "\<forall>k < m. make_tag ?e (1 + of_nat k) \<noteq> 0"
  proof (intro allI impI)
    fix k assume "k < m"
    then have "make_tag ?e (of_nat (Suc k)) \<noteq> 0" by (intro nz) simp_all
    then show "make_tag ?e (1 + of_nat k) \<noteq> 0" by simp
  qed
  have two: "0 \<notin> set (collected_tags col)"
  proof (cases "alloc_failed col")
    case True
    with failed have "collected_tags col = map (\<lambda>k. make_tag ?e (of_nat k)) [Suc 0 ..< m]"
      by simp
    then show ?thesis using nz by (auto simp del: upt_Suc)
  next
    case False
    with compl have "collected_tags col = map (\<lambda>k. make_tag ?e (of_nat k)) [Suc 0 ..< Suc m]"
      by simp
    then show ?thesis using nz by (auto simp del: upt_Suc)
  qed
  have three: "\<forall>ob \<in> set (heap j'). visited klass ob \<longrightarrow> obj_tag ob \<noteq> 0"
    if "\<not> alloc_failed col"
  proof (intro ballI impI)
    fix ob assume "ob \<in> set (heap j')" and vis: "visited klass ob"
    then obtain i where i: "i < length ?obs" and ob: "ob = obs' ! i"
      by (auto simp: j' obs' in_set_conv_nth length_retag)
    have m: "m = length (filter (eligible klass) ?obs)" using that compl by simp
    show "obj_tag ob \<noteq> 0"
    proof (cases "eligible klass (?obs ! i)")
      case True
      then have r: "rank klass ?obs i < m"
        using rank_less_total [OF i] m by simp
      then have "obj_tag ob = make_tag ?e (of_nat (Suc (rank klass ?obs i)))"
        using True i by (simp add: ob obs' retag_nth)
      moreover have "make_tag ?e (of_nat (Suc (rank klass ?obs i))) \<noteq> 0"
        using r by (intro nz) simp_all
      ultimately show ?thesis by simp
    next
      case False
      then have same: "ob = ?obs ! i" using i by (simp add: ob obs' retag_nth)
      with vis False show ?thesis by (simp add: eligible_def)
    qed
  qed
  show ?thesis
    using one two three mb obs' j' by blast
qed

theorem tagging_pass_never_zero_witness:
  "(case IterateThroughHeap (demo_runtime fresh_heap) None heap_tagging_cb empty_collector
           (initial_process []\<lparr>g_local_counter := 1\<rparr>) \<lparr>heap = fresh_heap, local_refs = []\<rparr> of
      (err, p', j', col) \<Rightarrow>
        \<not> err \<and> \<not> alloc_failed col \<and> 0 \<notin> set (collected_tags col) \<and>
        (\<forall>ob \<in> set (heap j'). visited None ob \<longrightarrow> obj_tag ob \<noteq> 0))"
proof -
  let ?j = "\<lparr>heap = fresh_heap, local_refs = []\<rparr>"
  obtain err p' j' col where
    run: "IterateThroughHeap (demo_runtime fresh_heap) None heap_tagging_cb empty_collector
           (initial_process []\<lparr>g_local_counter := 1\<rparr>) ?j = (err, p', j', col)"
    by (cases "IterateThroughHeap (demo_runtime fresh_heap) None heap_tagging_cb
           empty_collector (initial_process []\<lparr>g_local_counter := 1\<rparr>) ?j") auto
  have ok: "\<not> err \<and> \<not> alloc_failed col"
    using run by (auto simp add: pass_eval)
  from tagging_pass_never_zero [OF run] ok show ?thesis
    unfolding run by simp
qed


text \<open>
  C10.  \<open>heap_tagging_cb\<close> stores the fresh identifier in the slot before it appends it:
  when it answers \<open>JVMTI_ITERATION_ABORT\<close> the slot holds the new identifier and the
  collector's identifiers are the ones it had.  So after a pass that stopped on a
  failed append (\<open>alloc_failed\<close> is set) there is an object, empty before the pass,
  that holds the identifier numbered one above the collector's count: it is not 0, it
  is not among the identifiers that the collector hands to the resolution, and no
  object after it was touched.
\<close>

theorem aborted_pass_keeps_unreported_tag:
  "(heap_tagging_cb q (Some 0) c = (JVMTI_ITERATION_ABORT, q', slot, c') \<longrightarrow>
      slot = Some (make_tag (g_epoch q) (g_local_counter q)) \<and>
      alloc_failed c' \<and> collected_tags c' = collected_tags c) \<and>
   (IterateThroughHeap rt klass heap_tagging_cb empty_collector (p\<lparr>g_local_counter := 1\<rparr>) j
      = (err, p', j', col) \<and> alloc_failed col \<longrightarrow>
    (\<exists>i < length (heap j).
        visited klass (heap j ! i) \<and> obj_tag (heap j ! i) = 0 \<and>
        obj_tag (heap j' ! i) = make_tag (g_epoch p) (of_nat (Suc (nat (sint (count col))))) \<and>
        obj_tag (heap j' ! i) \<noteq> 0 \<and>
        obj_tag (heap j' ! i) \<notin> set (collected_tags col) \<and>
        (\<forall>k. i < k \<and> k < length (heap j) \<longrightarrow> heap j' ! k = heap j ! k)))"
proof (intro conjI impI)
  assume cb: "heap_tagging_cb q (Some 0) c = (JVMTI_ITERATION_ABORT, q', slot, c')"
  from heap_tagging_cb_abort [OF cb]
  show "slot = Some (make_tag (g_epoch q) (g_local_counter q))" "alloc_failed c'"
    "collected_tags c' = collected_tags c" .
next
  let ?p = "p\<lparr>g_local_counter := 1\<rparr>"
  let ?obs = "heap j"
  let ?e = "g_epoch p"
  let ?f = "\<lambda>k. make_tag ?e (of_nat k)"
  assume "IterateThroughHeap rt klass heap_tagging_cb empty_collector ?p j = (err, p', j', col)
      \<and> alloc_failed col"
  then have pass: "IterateThroughHeap rt klass heap_tagging_cb empty_collector ?p j
      = (err, p', j', col)" and failed: "alloc_failed col" by simp_all
  have noerr: "\<not> IterateThroughHeap_error rt klass"
    using pass failed by (auto simp: IterateThroughHeap_def empty_collector_def)
  obtain obs' where
    walk: "visit_objects heap_tagging_cb klass ?obs ?p empty_collector = (obs', p', col)"
    and j': "heap j' = obs'"
    using pass noerr by (auto simp: IterateThroughHeap_def split: prod.splits)
  have cnt: "g_local_counter ?p = of_nat (Suc 0)" by simp
  from tagging_walk_inv [OF walk col_inv_empty cnt] failed obtain m where
    obs': "obs' = retag klass ?e 1 m ?obs"
    and mle: "m \<le> length (filter (eligible klass) ?obs)"
    and mb: "m \<le> 2 ^ 31" and m1: "1 \<le> m"
    and cntm: "sint (count col) = int m - 1"
    and coll: "collected_tags col = map ?f [Suc 0 ..< m]"
    by (auto simp: collected_tags_empty simp del: upt_Suc)
  have "m - 1 < length (filter (eligible klass) ?obs)" using m1 mle by simp
  from nth_eligible [OF this] obtain i where
    i: "i < length ?obs" and el: "eligible klass (?obs ! i)" and rk: "rank klass ?obs i = m - 1"
    by blast
  have "nat (sint (count col)) = m - 1" using cntm m1 by simp
  then have idx: "Suc (nat (sint (count col))) = m" using m1 by simp
  have "obj_tag (obs' ! i) = make_tag ?e (1 + of_nat (m - 1))"
    using i el rk m1 by (simp add: obs' retag_nth)
  also have "1 + (of_nat (m - 1) :: 64 word) = of_nat m"
    using m1 by (metis Suc_pred' of_nat_Suc less_eq_Suc_le One_nat_def)
  finally have tag: "obj_tag (obs' ! i) = ?f m" .
  have nz: "?f m \<noteq> 0" using m1 mb by (intro make_tag_nonzero) simp_all
  have fresh: "?f m \<notin> set (collected_tags col)"
  proof
    assume "?f m \<in> set (collected_tags col)"
    then obtain k where k: "Suc 0 \<le> k" "k < m" "?f m = ?f k"
      by (auto simp: coll simp del: upt_Suc)
    have "m < 2 ^ 32" "k < 2 ^ 32" using mb k(2) by simp_all
    from make_tag_inj [OF this k(3)] k(2) show False by simp
  qed
  have rest: "obs' ! k = ?obs ! k" if "i < k" "k < length ?obs" for k
  proof -
    have "rank klass ?obs i < rank klass ?obs k" by (rule rank_less [OF that(1) i el])
    then have "\<not> rank klass ?obs k < m" using rk by simp
    then show ?thesis using that(2) by (simp add: obs' retag_nth)
  qed
  show "\<exists>i < length (heap j).
        visited klass (heap j ! i) \<and> obj_tag (heap j ! i) = 0 \<and>
        obj_tag (heap j' ! i) = make_tag (g_epoch p) (of_nat (Suc (nat (sint (count col))))) \<and>
        obj_tag (heap j' ! i) \<noteq> 0 \<and>
        obj_tag (heap j' ! i) \<notin> set (collected_tags col) \<and>
        (\<forall>k. i < k \<and> k < length (heap j) \<longrightarrow> heap j' ! k = heap j ! k)"
    apply (rule exI [of _ i])
    using i el tag nz fresh rest unfolding idx j' by (simp add: eligible_def)
qed

theorem aborted_pass_keeps_unreported_tag_witness:
  "(case IterateThroughHeap (demo_runtime fresh_heap) (Some 2) heap_tagging_cb empty_collector
           (initial_process [False]\<lparr>g_local_counter := 1\<rparr>) \<lparr>heap = fresh_heap, local_refs = []\<rparr> of
      (err, p', j', col) \<Rightarrow>
        alloc_failed col \<and> collected_tags col = [] \<and>
        map obj_tag (heap j') = [0, 0x100000001, 0] \<and>
        (\<exists>i < 3. obj_tag (heap j' ! i) \<noteq> 0 \<and> obj_tag (heap j' ! i) \<notin> set (collected_tags col)))"
proof -
  let ?j = "\<lparr>heap = fresh_heap, local_refs = []\<rparr>"
  let ?p = "initial_process [False]"
  obtain err p' j' col where
    run: "IterateThroughHeap (demo_runtime fresh_heap) (Some 2) heap_tagging_cb empty_collector
           (?p\<lparr>g_local_counter := 1\<rparr>) ?j = (err, p', j', col)"
    by (cases "IterateThroughHeap (demo_runtime fresh_heap) (Some 2) heap_tagging_cb
           empty_collector (?p\<lparr>g_local_counter := 1\<rparr>) ?j") auto
  have f: "alloc_failed col" and c: "collected_tags col = []"
    and h: "map obj_tag (heap j') = [0, 0x100000001, 0]"
    using run by (auto simp add: pass_eval collected_tags_def)
  from aborted_pass_keeps_unreported_tag [of _ _ _ _ _ "demo_runtime fresh_heap" "Some 2" ?p ?j
      err p' j' col] run f
  have "\<exists>i < length (heap ?j). obj_tag (heap j' ! i) \<noteq> 0 \<and>
          obj_tag (heap j' ! i) \<notin> set (collected_tags col)"
    by blast
  then show ?thesis unfolding run using f c h by (simp add: fresh_heap_def numeral_3_eq_3)
qed


section \<open>The epoch\<close>

lemma iterate_tagging_epoch:
  "IterateThroughHeap rt klass heap_tagging_cb col p j = (err, p', j', col') \<Longrightarrow>
     g_epoch p' = g_epoch p"
  by (auto simp: IterateThroughHeap_def split: if_splits prod.splits dest: tagging_walk)

lemma c_alloc_epoch: "c_alloc n p = (ok, p') \<Longrightarrow> g_epoch p' = g_epoch p"
  by (auto dest: c_alloc_globals)

lemma name_entry_epoch:
  "name_entry rt obj p j t = (res, p', j') \<Longrightarrow> g_epoch p' = g_epoch p"
  by (auto simp: name_entry_def Let_def split: option.splits if_splits prod.splits
      dest: c_alloc_epoch)

lemma collect_names_epoch:
  "collect_names rt objs p j ns ls t = (res, p', j') \<Longrightarrow> g_epoch p' = g_epoch p"
proof (induction objs arbitrary: p j ns ls t)
  case Nil
  then show ?case by simp
next
  case (Cons obj objs)
  obtain r1 p1 j1 where st: "name_entry rt obj p j t = (r1, p1, j1)"
    by (cases "name_entry rt obj p j t") auto
  note e1 = name_entry_epoch [OF st]
  show ?case
  proof (cases r1)
    case None
    with Cons.prems st have "p' = p1" by simp
    with e1 show ?thesis by simp
  next
    case (Some x)
    obtain name len t' where "x = (name, len, t')" by (cases x) auto
    with Cons.prems st Some
    have "collect_names rt objs p1 j1 (ns @ [name]) (ls @ [len]) t' = (res, p', j')" by simp
    from Cons.IH [OF this] e1 show ?thesis by simp
  qed
qed

lemma alloc_names_epoch:
  assumes "alloc_names n p = (ok, p')"
  shows "g_epoch p' = g_epoch p"
proof (cases "n > 0")
  case False
  with assms show ?thesis by (simp add: alloc_names_def)
next
  case True
  obtain ok1 p1 where a1: "c_alloc (of_nat n * 8) p = (ok1, p1)"
    by (cases "c_alloc (of_nat n * 8) p") auto
  obtain ok2 p2 where a2: "c_alloc (of_nat n * 4) p1 = (ok2, p2)"
    by (cases "c_alloc (of_nat n * 4) p1") auto
  from assms True a1 a2 have "p' = p2" by (simp add: alloc_names_def)
  with c_alloc_epoch [OF a1] c_alloc_epoch [OF a2] show ?thesis by simp
qed

lemma snapshot_output_epoch:
  assumes "snapshot_output rt resolved names lens t p j = Inr (r, p', j')"
  shows "g_epoch p' = g_epoch p"
proof (cases "t > 0x7FFFFFFF")
  case True
  with assms show ?thesis by (simp add: snapshot_output_def)
next
  case False
  obtain ok p1 where a: "c_alloc t p = (ok, p1)" by (cases "c_alloc t p") auto
  from assms False a have "p' = p1"
    by (auto simp: snapshot_output_def split: if_splits option.splits)
  with c_alloc_epoch [OF a] show ?thesis by simp
qed

lemma snapshot_names_epoch:
  assumes "snapshot_names rt resolved p j = Inr (r, p', j')"
  shows "g_epoch p' = g_epoch p"
proof (cases "FindClass rt (bytes_of ''java/lang/Class'') = None \<or> \<not> GetMethodID rt")
  case True
  with assms show ?thesis by (auto simp: snapshot_names_def split: if_splits)
next
  case False
  obtain ok p1 where a: "alloc_names (length resolved) p = (ok, p1)"
    by (cases "alloc_names (length resolved) p") auto
  note e1 = alloc_names_epoch [OF a]
  show ?thesis
  proof (cases ok)
    case False
    with assms \<open>\<not> (FindClass rt (bytes_of ''java/lang/Class'') = None \<or> \<not> GetMethodID rt)\<close> a
    have "p' = p1" by (auto simp add: snapshot_names_def)
    with e1 show ?thesis by simp
  next
    case True
    obtain res p2 j2 where c: "collect_names rt (map fst resolved) p1 j [] [] 4 = (res, p2, j2)"
      by (cases "collect_names rt (map fst resolved) p1 j [] [] 4") auto
    note e2 = collect_names_epoch [OF c]
    show ?thesis
    proof (cases res)
      case None
      with assms False a True c have "p' = p2" by (auto simp add: snapshot_names_def)
      with e1 e2 show ?thesis by simp
    next
      case (Some x)
      obtain names lens t where x: "x = (names, lens, t)" by (cases x) auto
      with assms False a True c Some
      have "snapshot_output rt resolved names lens t p2 j2 = Inr (r, p', j')"
        by (auto simp add: snapshot_names_def)
      from snapshot_output_epoch [OF this] e1 e2 show ?thesis by simp
    qed
  qed
qed

lemma nativeSnapshotBytes_epoch:
  assumes "nativeSnapshotBytes rt env cn p j = Inr (r, p', j')"
  shows "g_epoch p' = g_epoch p"
proof (cases "cn = None \<or> \<not> g_jvmti p \<or> \<not> env")
  case True
  with assms show ?thesis by (auto simp: nativeSnapshotBytes_def split: option.splits)
next
  case False
  then obtain jcn where cn: "cn = Some jcn" and on: "g_jvmti p" "env" by auto
  obtain j1 where cl: "clear_all_tags rt p j = (p, j1)" by (simp add: clear_all_tags_eq)
  let ?p2 = "p\<lparr>g_local_counter := 1\<rparr>"
  show ?thesis
  proof (cases "Option.bind (GetStringUTFChars rt jcn) (FindClass rt)")
    case None
    with assms cn on cl have "p' = ?p2"
      by (auto simp: nativeSnapshotBytes_def Let_def split: option.splits)
    then show ?thesis by simp
  next
    case (Some targetClass)
    obtain err p3 j3 col where it:
      "IterateThroughHeap rt (Some targetClass) heap_tagging_cb empty_collector ?p2 j1
         = (err, p3, j3, col)"
      by (cases "IterateThroughHeap rt (Some targetClass) heap_tagging_cb empty_collector ?p2 j1")
         auto
    obtain resolved j4 where rs: "resolve_tags rt col j3 = (resolved, j4)"
      by (cases "resolve_tags rt col j3") auto
    from assms cn on cl Some it rs
    have "snapshot_names rt resolved p3 j4 = Inr (r, p', j')"
      by (auto simp: nativeSnapshotBytes_def Let_def split: option.splits Option.bind_splits)
    from snapshot_names_epoch [OF this] iterate_tagging_epoch [OF it] show ?thesis by simp
  qed
qed

lemma nativeWalkHeap_epoch:
  assumes "nativeWalkHeap rt env p j = (r, p', j')"
  shows "g_epoch p' = g_epoch p"
proof (cases "\<not> g_jvmti p \<or> \<not> env")
  case True
  with assms show ?thesis by (auto simp: nativeWalkHeap_def)
next
  case False
  obtain j1 where cl: "clear_all_tags rt p j = (p, j1)" by (simp add: clear_all_tags_eq)
  let ?p2 = "p\<lparr>g_local_counter := 1\<rparr>"
  obtain err p3 j3 col where it:
    "IterateThroughHeap rt None heap_tagging_cb empty_collector ?p2 j1 = (err, p3, j3, col)"
    by (cases "IterateThroughHeap rt None heap_tagging_cb empty_collector ?p2 j1") auto
  from assms False cl it have "p' = p3"
    by (auto simp: nativeWalkHeap_def Let_def split: if_splits option.splits prod.splits)
  with iterate_tagging_epoch [OF it] show ?thesis by simp
qed

lemma nativeResolve_epoch:
  "nativeResolve rt env t p j = (r, p', j') \<Longrightarrow> p' = p"
  by (auto simp: nativeResolve_def split: if_splits prod.splits option.splits list.splits)

lemma walk_class_epoch:
  assumes "walk_class rt jName p j c n cap = (res, p', j')"
  shows "g_epoch p' = g_epoch p \<or> g_epoch p' = g_epoch p + 1"
proof (cases "Option.bind (Option.bind jName (GetStringUTFChars rt)) (FindClass rt)")
  case None
  with assms have "p' = p" by (simp add: walk_class_def)
  then show ?thesis by simp
next
  case (Some targetClass)
  let ?p2 = "p\<lparr>g_epoch := g_epoch p + 1, g_local_counter := 1\<rparr>"
  obtain err p3 j3 col where it:
    "IterateThroughHeap rt (Some targetClass) heap_tagging_cb empty_collector ?p2 j
       = (err, p3, j3, col)"
    by (cases "IterateThroughHeap rt (Some targetClass) heap_tagging_cb empty_collector ?p2 j")
       auto
  have e3: "g_epoch p3 = g_epoch p + 1" using iterate_tagging_epoch [OF it] by simp
  from assms Some it have "g_epoch p' = g_epoch p3"
    by (auto simp: walk_class_def Let_def split: if_splits option.splits prod.splits
        dest: c_alloc_epoch)
  with e3 show ?thesis by simp
qed

lemma walk_classes_epoch:
  "walk_classes rt ns p j c n cap = (res, p', j') \<Longrightarrow>
     \<exists>k \<le> length ns. g_epoch p' = g_epoch p + of_nat k"
proof (induction ns arbitrary: p j c n cap)
  case Nil
  then show ?case by simp
next
  case (Cons jName ns)
  obtain r1 p1 j1 where step: "walk_class rt jName p j c n cap = (r1, p1, j1)"
    by (cases "walk_class rt jName p j c n cap") auto
  obtain k1 where k1: "k1 \<le> 1" "g_epoch p1 = g_epoch p + of_nat k1"
  proof (cases "g_epoch p1 = g_epoch p")
    case True
    then show ?thesis by (intro that [of 0]) simp_all
  next
    case False
    with walk_class_epoch [OF step] have "g_epoch p1 = g_epoch p + 1" by simp
    then show ?thesis by (intro that [of 1]) simp_all
  qed
  show ?case
  proof (cases r1)
    case None
    with Cons.prems step have "p' = p1" by simp
    with k1 show ?thesis by (intro exI [of _ k1]) simp
  next
    case (Some st)
    obtain c1 n1 cap1 where st: "st = (c1, n1, cap1)" by (cases st) auto
    with Cons.prems step Some
    have "walk_classes rt ns p1 j1 c1 n1 cap1 = (res, p', j')" by simp
    from Cons.IH [OF this] obtain k where "k \<le> length ns" "g_epoch p' = g_epoch p1 + of_nat k"
      by blast
    with k1 show ?thesis by (intro exI [of _ "k1 + k"]) simp
  qed
qed

lemma nativeWalkHeapFiltered_epoch:
  assumes run: "nativeWalkHeapFiltered rt env cns p j = (r, p', j')"
  shows "\<exists>k \<le> (case cns of None \<Rightarrow> 0 | Some ns \<Rightarrow> length ns). g_epoch p' = g_epoch p + of_nat k"
proof (cases cns)
  case None
  then show ?thesis using run by (auto simp: nativeWalkHeapFiltered_def)
next
  case (Some ns)
  show ?thesis
  proof (cases "\<not> g_jvmti p \<or> \<not> env \<or> length ns = 0")
    case True
    then have "p' = p" using Some run
      by (auto simp: nativeWalkHeapFiltered_def split: if_splits)
    then show ?thesis by (intro exI [of _ 0]) simp
  next
    case False
    obtain res p1 j1 where w: "walk_classes rt ns p j [] 0 0 = (res, p1, j1)"
      by (cases "walk_classes rt ns p j [] 0 0") auto
    then have "p' = p1"
      using False Some run
      by (auto simp: nativeWalkHeapFiltered_def Let_def split: option.splits if_splits prod.splits)
    with walk_classes_epoch [OF w] show ?thesis using Some by simp
  qed
qed

lemma advance_funpow: "g_epoch ((nativeAdvanceEpoch ^^ N) p) = g_epoch p + of_nat N"
  by (induction N) (auto simp: nativeAdvanceEpoch_def)

lemma sint_add_nat:
  fixes e :: "64 word"
  assumes "sint e + int N < 2 ^ 63"
  shows "sint (e + of_nat N) = sint e + int N"
proof -
  have "e + of_nat N = word_of_int (sint e + int N)" by simp
  moreover have "- (2 ^ 63) \<le> sint e + int N"
    using sint_greater_eq [of e] by simp
  ultimately show ?thesis
    using assms by (simp only: signed_of_int) (simp add: signed_take_bit_int_eq_self)
qed


text \<open>
  C7.  \<open>N\<close> calls of \<open>nativeAdvanceEpoch\<close> add exactly \<open>N\<close> to \<open>g_epoch\<close>: the new value is
  the old one plus \<open>N\<close> in 64-bit arithmetic, and as a signed number it is exactly \<open>N\<close>
  larger as long as the sum is below \<open>2^63\<close>.  Nothing else lowers or resets the epoch:
  \<open>nativeSnapshotBytes\<close>, \<open>nativeWalkHeap\<close> and \<open>nativeResolve\<close> leave it as it is, and
  \<open>nativeWalkHeapFiltered\<close> adds one for each class it walks, at most the number of
  class names.
\<close>

theorem epoch_monotonic:
  "g_epoch ((nativeAdvanceEpoch ^^ N) p) = g_epoch p + of_nat N \<and>
   (sint (g_epoch p) + int N < 2 ^ 63 \<longrightarrow>
      sint (g_epoch ((nativeAdvanceEpoch ^^ N) p)) = sint (g_epoch p) + int N) \<and>
   (nativeSnapshotBytes rt env cn p j = Inr (r1, p1, j1) \<longrightarrow> g_epoch p1 = g_epoch p) \<and>
   (nativeWalkHeap rt env p j = (r2, p2, j2) \<longrightarrow> g_epoch p2 = g_epoch p) \<and>
   (nativeResolve rt env t p j = (r3, p3, j3) \<longrightarrow> g_epoch p3 = g_epoch p) \<and>
   (nativeWalkHeapFiltered rt env cns p j = (r4, p4, j4) \<longrightarrow>
      (\<exists>k \<le> (case cns of None \<Rightarrow> 0 | Some ns \<Rightarrow> length ns).
          g_epoch p4 = g_epoch p + of_nat k))"
proof (intro conjI impI)
  show "g_epoch ((nativeAdvanceEpoch ^^ N) p) = g_epoch p + of_nat N"
    by (rule advance_funpow)
next
  assume "sint (g_epoch p) + int N < 2 ^ 63"
  from sint_add_nat [OF this]
  show "sint (g_epoch ((nativeAdvanceEpoch ^^ N) p)) = sint (g_epoch p) + int N"
    by (simp only: advance_funpow)
next
  assume "nativeSnapshotBytes rt env cn p j = Inr (r1, p1, j1)"
  then show "g_epoch p1 = g_epoch p" by (rule nativeSnapshotBytes_epoch)
next
  assume "nativeWalkHeap rt env p j = (r2, p2, j2)"
  then show "g_epoch p2 = g_epoch p" by (rule nativeWalkHeap_epoch)
next
  assume "nativeResolve rt env t p j = (r3, p3, j3)"
  from nativeResolve_epoch [OF this] show "g_epoch p3 = g_epoch p" by simp
next
  assume "nativeWalkHeapFiltered rt env cns p j = (r4, p4, j4)"
  then show "\<exists>k \<le> (case cns of None \<Rightarrow> 0 | Some ns \<Rightarrow> length ns).
          g_epoch p4 = g_epoch p + of_nat k"
    by (rule nativeWalkHeapFiltered_epoch)
qed


theorem epoch_monotonic_witness:
  "g_epoch ((nativeAdvanceEpoch ^^ 3) (initial_process [])) = 4 \<and>
   sint (g_epoch ((nativeAdvanceEpoch ^^ 3) (initial_process []))) = 4 \<and>
   g_epoch (fst (snd (nativeWalkHeapFiltered (demo_runtime fresh_heap) True
      (Some [Some (bytes_of ''A''), None, Some (bytes_of ''B'')]) (initial_process [])
      \<lparr>heap = fresh_heap, local_refs = []\<rparr>))) \<in> {1, 2, 3, 4}"
proof -
  let ?p = "initial_process []"
  let ?j = "\<lparr>heap = fresh_heap, local_refs = []\<rparr>"
  let ?cns = "Some [Some (bytes_of ''A''), None, Some (bytes_of ''B'')]"
  have e: "g_epoch ?p = 1" by (simp add: initial_process_def)
  have small: "sint (g_epoch ?p) + int 3 < 2 ^ 63" by (simp add: e)
  obtain r4 p4 j4 where
    run: "nativeWalkHeapFiltered (demo_runtime fresh_heap) True ?cns ?p ?j = (r4, p4, j4)"
    by (cases "nativeWalkHeapFiltered (demo_runtime fresh_heap) True ?cns ?p ?j") auto
  note th = epoch_monotonic [where N = 3 and p = ?p and rt = "demo_runtime fresh_heap"
      and env = True and j = ?j and cns = ?cns and ?r4.0 = r4 and ?p4.0 = p4 and ?j4.0 = j4]
  have a: "g_epoch ((nativeAdvanceEpoch ^^ 3) ?p) = g_epoch ?p + of_nat 3"
    by (rule th [THEN conjunct1])
  have b: "sint (g_epoch ((nativeAdvanceEpoch ^^ 3) ?p)) = sint (g_epoch ?p) + int 3"
    by (rule th [THEN conjunct2, THEN conjunct1, THEN mp, OF small])
  have "\<exists>k \<le> (case ?cns of None \<Rightarrow> 0 | Some ns \<Rightarrow> length ns).
          g_epoch p4 = g_epoch ?p + of_nat k"
    by (rule th [THEN conjunct2, THEN conjunct2, THEN conjunct2, THEN conjunct2,
          THEN conjunct2, THEN mp, OF run])
  then have c: "\<exists>k \<le> 3. g_epoch p4 = g_epoch ?p + of_nat k"
    by (simp add: numeral_3_eq_3)
  from c obtain k where "k \<le> 3" "g_epoch p4 = 1 + of_nat k" unfolding e by blast
  then have "k = 0 \<or> k = 1 \<or> k = 2 \<or> k = 3" by auto
  with \<open>g_epoch p4 = 1 + of_nat k\<close> have "g_epoch p4 \<in> {1, 2, 3, 4}" by auto
  with a b show ?thesis unfolding run e by simp
qed

section \<open>The encoder\<close>

lemma length_malloc_block: "length (malloc_block rt n) = n"
  by (simp add: malloc_block_def)

lemma write_at_append:
  "Option.bind (write_at buf p as) (\<lambda>b. write_at b (p + length as) bs) = write_at buf p (as @ bs)"
proof (cases "p + length as + length bs \<le> length buf")
  case True
  let ?b = "take p buf @ as @ drop (p + length as) buf"
  have w: "write_at buf p as = Some ?b" using True by (simp add: write_at_def)
  have lb: "length ?b = length buf" using True by simp
  have t: "take (p + length as) ?b = take p buf @ as" using True by simp
  have d: "drop (p + length as + length bs) ?b = drop (p + length as + length bs) buf"
    using True by (simp add: add.commute)
  have "write_at ?b (p + length as) bs = Some (take p buf @ as @ bs @ drop (p + length as + length bs) buf)"
    unfolding write_at_def lb t d using True by simp
  moreover have "write_at buf p (as @ bs)
      = Some (take p buf @ as @ bs @ drop (p + length as + length bs) buf)"
    using True by (simp add: write_at_def add.assoc)
  ultimately show ?thesis using w by simp
next
  case False
  then have r: "write_at buf p (as @ bs) = None" by (simp add: write_at_def add.assoc)
  show ?thesis
  proof (cases "write_at buf p as")
    case None
    with r show ?thesis by simp
  next
    case (Some b)
    then have "length b = length buf" by (auto simp: write_at_def split: if_splits)
    with False have "write_at b (p + length as) bs = None" by (simp add: write_at_def)
    with Some r show ?thesis by simp
  qed
qed

lemma write_at_Nil: "p \<le> length buf \<Longrightarrow> write_at buf p [] = Some buf"
  by (simp add: write_at_def)

lemma write_at_length: "write_at buf p bs = Some b \<Longrightarrow> length b = length buf"
  by (auto simp: write_at_def split: if_splits)

lemma store_write_at: "store buf p v = write_at buf p [v]"
  by (auto simp: store_def write_at_def upd_conv_take_nth_drop)

lemma memcpy_write_at:
  "xs \<noteq> [] \<or> p \<le> length buf \<Longrightarrow> memcpy buf p xs = write_at buf p xs"
proof (induction xs arbitrary: buf p)
  case Nil
  then show ?case by (simp add: write_at_Nil)
next
  case (Cons x xs)
  have "memcpy buf p (x # xs) = Option.bind (write_at buf p [x]) (\<lambda>b. memcpy b (Suc p) xs)"
    by (simp add: store_write_at)
  also have "\<dots> = Option.bind (write_at buf p [x]) (\<lambda>b. write_at b (p + length [x]) xs)"
  proof (cases "write_at buf p [x]")
    case None
    then show ?thesis by simp
  next
    case (Some b)
    then have "Suc p \<le> length b"
      by (auto simp: write_at_def split: if_splits)
    then have "memcpy b (Suc p) xs = write_at b (Suc p) xs" by (intro Cons.IH) simp
    with Some show ?thesis by simp
  qed
  also have "\<dots> = write_at buf p ([x] @ xs)" by (rule write_at_append)
  finally show ?case by simp
qed

lemma ff32: "(0xFF :: 32 word) = mask 8"
  by (simp add: mask_eq_exp_minus_1)

lemma ff64: "(0xFF :: 64 word) = mask 8"
  by (simp add: mask_eq_exp_minus_1)

lemma byte_and_ff32: "(ucast (x AND 0xFF) :: byte) = ucast x" for x :: "32 word"
  unfolding ff32 by (rule bit_word_eqI) (auto simp add: bit_simps)

lemma byte_and_ff64: "(ucast (x AND 0xFF) :: byte) = ucast x" for x :: "64 word"
  unfolding ff64 by (rule bit_word_eqI) (auto simp add: bit_simps)

lemma byte_signed_drop:
  "n \<le> 24 \<Longrightarrow> (ucast (signed_drop_bit n x) :: byte) = ucast (drop_bit n x)" for x :: "32 word"
  by (rule bit_word_eqI) (auto simp add: bit_simps)

lemma write_at_Cons2:
  "write_at buf p (x # y # ys) =
     Option.bind (write_at buf p [x]) (\<lambda>b. write_at b (Suc p) (y # ys))"
  using write_at_append [of buf p "[x]" "y # ys"] by simp

lemma add_three: "p + 3 = Suc (Suc (Suc p))"
  by simp

lemma put_jint_write_at: "put_jint buf p x = write_at buf p (be32 x)"
  by (simp add: put_jint_def store_write_at byte_and_ff32 byte_signed_drop be32_def
      write_at_Cons2 add_three)

lemma put_tag_write_at:
  "put_tag buf p b ut =
     write_at buf p (map (\<lambda>k. ucast (drop_bit (8 * (b - k)) ut)) [0..<Suc b])"
proof (induction b arbitrary: buf ut)
  case 0
  then show ?case by (simp add: store_write_at byte_and_ff64)
next
  case (Suc b)
  let ?f = "\<lambda>k. (ucast (drop_bit (8 * (Suc b - k)) ut) :: byte)"
  have m: "map (\<lambda>k. (ucast (drop_bit (8 * (b - k) + 8) ut) :: byte)) [0..<Suc b]
      = map ?f [0..<Suc b]"
    by (rule map_cong) (auto simp: Suc_diff_le algebra_simps)
  have "put_tag buf p (Suc b) ut =
      Option.bind (write_at buf (p + Suc b) [ucast ut])
        (\<lambda>b'. write_at b' p (map ?f [0..<Suc b]))"
    by (simp add: store_write_at byte_and_ff64 Suc.IH m del: upt_Suc)
  also have "\<dots> = write_at buf p (map ?f [0..<Suc b] @ [ucast ut])"
  proof (cases "p + Suc (Suc b) \<le> length buf")
    case False
    then show ?thesis
      by (auto simp: write_at_def split: if_splits simp del: upt_Suc)
  next
    case True
    let ?m = "map ?f [0..<Suc b]"
    have lm: "length ?m = Suc b" by simp
    let ?b1 = "take (p + Suc b) buf @ [ucast ut] @ drop (Suc (p + Suc b)) buf"
    have w1: "write_at buf (p + Suc b) [ucast ut] = Some ?b1"
      using True by (simp add: write_at_def)
    have l1: "length ?b1 = length buf" using True by simp
    have t1: "take p ?b1 = take p buf" using True by simp
    have d1: "drop (p + Suc b) ?b1 = [ucast ut] @ drop (Suc (p + Suc b)) buf"
      using True by simp
    have "write_at ?b1 p ?m = Some (take p buf @ ?m @ [ucast ut] @ drop (Suc (p + Suc b)) buf)"
      unfolding write_at_def l1 lm t1 d1 using True by simp
    moreover have "write_at buf p (?m @ [ucast ut])
        = Some (take p buf @ ?m @ [ucast ut] @ drop (Suc (p + Suc b)) buf)"
      using True by (simp add: write_at_def del: upt_Suc)
    ultimately show ?thesis using w1 by (simp del: upt_Suc)
  qed
  also have "map ?f [0..<Suc b] @ [ucast ut] = map ?f [0..<Suc (Suc b)]"
    by simp
  finally show ?case .
qed

lemma put_tag_be64: "put_tag buf p 7 t = write_at buf p (be64 t)"
proof -
  have "map (\<lambda>k. (ucast (drop_bit (8 * (7 - k)) t) :: byte)) [0..<Suc 7] = be64 t"
    by (simp add: be64_def upt_rec)
  then show ?thesis by (simp only: put_tag_write_at)
qed

lemma write_at_fits: "write_at buf p bs = Some b \<Longrightarrow> p + length bs \<le> length b \<and> length b = length buf"
  by (auto simp: write_at_def split: if_splits)

lemma length_be64: "length (be64 t) = 8" by (simp add: be64_def)
lemma length_be32: "length (be32 l) = 4" by (simp add: be32_def)

lemma names_fit_Cons:
  "names_fit (l # ls) (n # ns) \<longleftrightarrow>
     (\<forall>name. n = Some name \<longrightarrow> nat (sint l) \<le> length name) \<and> names_fit ls ns"
  by (auto simp: names_fit_def)

lemma encode_records_write_at:
  assumes "length ls = length ts" "length ns = length ts" "p \<le> length buf" "names_fit ls ns"
  shows "encode_records buf p ts ls ns
           = write_at buf p (concat (map record_bytes (zip ts (zip ls ns))))"
  using assms
proof (induction ts arbitrary: ls ns buf p)
  case Nil
  then show ?case by (simp add: write_at_Nil)
next
  case (Cons t ts)
  from Cons.prems obtain l ls' n ns' where ls: "ls = l # ls'" and ns: "ns = n # ns'"
    by (cases ls; cases ns) auto
  have len: "length ls' = length ts" "length ns' = length ts"
    using Cons.prems ls ns by simp_all
  have fit: "names_fit ls' ns'" and fit1: "\<And>name. n = Some name \<Longrightarrow> nat (sint l) \<le> length name"
    using Cons.prems(4) by (simp_all add: ls ns names_fit_Cons)
  define nm where "nm = (case n of Some name \<Rightarrow> if sint l > 0 then take (nat (sint l)) name else []
                                 | None \<Rightarrow> [])"
  define adv where "adv = (case n of Some name \<Rightarrow> if sint l > 0 then nat (sint l) else 0
                                   | None \<Rightarrow> 0)"
  have adv: "adv = length nm"
    using fit1 by (auto simp: adv_def nm_def split: option.splits)
  let ?R = "concat (map record_bytes (zip ts (zip ls' ns')))"
  let ?rest = "\<lambda>b q. encode_records b q ts ls' ns'"
  have rec: "record_bytes (t, l, n) = be64 t @ be32 l @ nm"
    by (simp add: record_bytes_def nm_def)
  have tail: "(case n of
          Some name \<Rightarrow>
            if sint l > 0 then
              Option.bind (memcpy b2 (p + 12) (take (nat (sint l)) name))
                (\<lambda>b3. ?rest b3 (p + 12 + nat (sint l)))
            else ?rest b2 (p + 12)
        | None \<Rightarrow> ?rest b2 (p + 12))
      = Option.bind (write_at b2 (p + 12) nm) (\<lambda>b3. ?rest b3 (p + 12 + length nm))"
    if "p + 12 \<le> length b2" for b2
    using that fit1
    by (auto simp: nm_def memcpy_write_at write_at_Nil split: option.splits)
  have step3: "Option.bind (write_at b2 (p + 12) nm) (\<lambda>b3. ?rest b3 (p + 12 + length nm))
      = write_at b2 (p + 12) (nm @ ?R)" for b2
  proof (cases "write_at b2 (p + 12) nm")
    case None
    with write_at_append [of b2 "p + 12" nm ?R] show ?thesis by simp
  next
    case (Some b3)
    from write_at_fits [OF Some] have "p + 12 + length nm \<le> length b3" by simp
    from Cons.IH [OF len this fit]
    have "?rest b3 (p + 12 + length nm) = write_at b3 (p + 12 + length nm) ?R" .
    with Some write_at_append [of b2 "p + 12" nm ?R] show ?thesis by simp
  qed
  have step2: "Option.bind (put_jint b1 (p + 8) l) (\<lambda>b2. (case n of
          Some name \<Rightarrow>
            if sint l > 0 then
              Option.bind (memcpy b2 (p + 12) (take (nat (sint l)) name))
                (\<lambda>b3. ?rest b3 (p + 12 + nat (sint l)))
            else ?rest b2 (p + 12)
        | None \<Rightarrow> ?rest b2 (p + 12)))
      = write_at b1 (p + 8) (be32 l @ nm @ ?R)" for b1
  proof (cases "write_at b1 (p + 8) (be32 l)")
    case None
    with write_at_append [of b1 "p + 8" "be32 l" "nm @ ?R"] show ?thesis
      by (simp add: put_jint_write_at)
  next
    case (Some b2)
    from write_at_fits [OF Some] have f: "p + 12 \<le> length b2" by (simp add: length_be32)
    from Some write_at_append [of b1 "p + 8" "be32 l" "nm @ ?R"] tail [OF f] step3 [of b2]
    show ?thesis by (simp add: put_jint_write_at length_be32 add.assoc)
  qed
  have "encode_records buf p (t # ts) (l # ls') (n # ns') = write_at buf p (be64 t @ be32 l @ nm @ ?R)"
  proof (cases "write_at buf p (be64 t)")
    case None
    with write_at_append [of buf p "be64 t" "be32 l @ nm @ ?R"] show ?thesis
      by (simp add: put_tag_be64)
  next
    case (Some b1)
    from Some write_at_append [of buf p "be64 t" "be32 l @ nm @ ?R"] step2 [of b1]
    show ?thesis by (simp add: put_tag_be64 length_be64)
  qed
  then show ?case by (simp add: ls ns rec)
qed

lemma encode_snapshot_write_at:
  assumes "length ls = length ts" "length ns = length ts" "names_fit ls ns"
  shows "encode_snapshot buf c ts ls ns
           = write_at buf 0 (be32 c @ concat (map record_bytes (zip ts (zip ls ns))))"
proof (cases "write_at buf 0 (be32 c)")
  case None
  with write_at_append [of buf 0 "be32 c"] show ?thesis
    by (simp add: encode_snapshot_def put_jint_write_at)
next
  case (Some b)
  from write_at_fits [OF Some] have "4 \<le> length b" by (simp add: length_be32)
  from encode_records_write_at [OF assms(1,2) this assms(3)] Some
    write_at_append [of buf 0 "be32 c" "concat (map record_bytes (zip ts (zip ls ns)))"]
  show ?thesis by (simp add: encode_snapshot_def put_jint_write_at length_be32)
qed

lemma write_at_exact: "length buf = length bs \<Longrightarrow> write_at buf 0 bs = Some bs"
  by (simp add: write_at_def)

lemma write_at_short: "length buf < length bs \<Longrightarrow> write_at buf p bs = None"
  by (simp add: write_at_def)


section \<open>The snapshot\<close>

lemma c_alloc_ok:
  "alloc_plan p = [] \<Longrightarrow> \<not> nbytes > 0x7FFFFFFFFFFFFFFF \<Longrightarrow> c_alloc nbytes p = (True, p)"
  by (simp add: c_alloc_def)

lemma unat_of_nat_small64: "n < 2 ^ 63 \<Longrightarrow> unat (of_nat n :: 64 word) = n"
  by (simp add: unat_of_nat)

lemma of_nat_64_not_big:
  assumes "n < 2 ^ 63"
  shows "\<not> (of_nat n :: 64 word) > 0x7FFFFFFFFFFFFFFF"
proof -
  have "unat (of_nat n :: 64 word) = n" by (rule unat_of_nat_small64 [OF assms])
  moreover have "unat (0x7FFFFFFFFFFFFFFF :: 64 word) = 0x7FFFFFFFFFFFFFFF" by simp
  ultimately show ?thesis using assms by (simp only: word_less_nat_alt) simp
qed

lemma takeWhile_strlen: "take (strlen cn) cn = takeWhile (\<lambda>b. b \<noteq> 0) cn"
  by (simp add: strlen_def takeWhile_eq_take [symmetric])

lemma name_entry_named:
  assumes nm: "named rt obj" and plan: "alloc_plan p = []"
  shows "name_entry rt obj p j t =
           (Some (Some (display_name rt obj), of_nat (length (display_name rt obj)),
                  t + of_nat (12 + length (display_name rt obj))),
            p, delete_refs [obj] j)"
proof -
  from nm obtain cn where rn: "resolved_name rt obj = Some cn"
    and pos: "0 < strlen cn" and small: "strlen cn < 2 ^ 31"
    by (auto simp: named_def)
  from rn obtain ob oc jn where obj: "obj = Some ob" and oc: "GetObjectClass rt ob = Some oc"
    and jn: "CallObjectMethod_getName rt oc = Some jn" and cn: "GetStringUTFChars rt jn = Some cn"
    by (auto simp: resolved_name_def split: Option.bind_splits)
  have dn: "display_name rt obj = takeWhile (\<lambda>b. b \<noteq> 0) cn"
    by (simp add: display_name_def rn)
  have ldn: "length (display_name rt obj) = strlen cn" by (simp add: dn strlen_def)
  let ?len = "word_of_nat (strlen cn) :: jint"
  have sl: "sint ?len = int (strlen cn)" by (rule sint_of_nat_small [OF small])
  have sc: "(scast ?len :: 64 word) = of_nat (strlen cn)" by (rule scast_of_nat_small [OF small])
  have "strlen cn < 2 ^ 63" using small by simp
  then have al: "c_alloc (of_nat (strlen cn)) p = (True, p)"
    by (intro c_alloc_ok plan of_nat_64_not_big)
  have tk: "take (strlen cn) cn = display_name rt obj" by (simp add: dn takeWhile_strlen)
  show ?thesis
    using pos ldn tk unfolding obj
    by (simp add: name_entry_def oc jn cn Let_def sl sc al add.assoc)
qed

lemma delete_refs_append: "delete_refs (xs @ ys) j = delete_refs ys (delete_refs xs j)"
  by (induction xs j rule: delete_refs.induct) auto

lemma collect_names_named:
  assumes "\<forall>obj \<in> set objs. named rt obj" and "alloc_plan p = []"
  shows "collect_names rt objs p j names lens t =
           (Some (names @ map (\<lambda>obj. Some (display_name rt obj)) objs,
                  lens @ map (\<lambda>obj. of_nat (length (display_name rt obj))) objs,
                  t + of_nat (sum_list (map (\<lambda>obj. 12 + length (display_name rt obj)) objs))),
            p, delete_refs objs j)"
  using assms
proof (induction objs arbitrary: j names lens t)
  case Nil
  then show ?case by simp
next
  case (Cons obj objs)
  then have nm: "named rt obj" and rest: "\<forall>obj \<in> set objs. named rt obj" by simp_all
  note st = name_entry_named [OF nm Cons.prems(2), of j t]
  have d: "delete_refs (obj # objs) j = delete_refs objs (delete_refs [obj] j)"
    using delete_refs_append [of "[obj]" objs j] by simp
  show ?case
    by (simp only: collect_names.simps st prod.case option.case Cons.IH [OF rest Cons.prems(2)] d)
       (simp add: add.assoc)
qed

lemma named_length:
  assumes "named rt obj"
  shows "0 < length (display_name rt obj)" and "length (display_name rt obj) < 2 ^ 31"
  using assms by (auto simp: named_def display_name_def strlen_def)

lemma length_le_snapshot_size: "12 * length objs \<le> snapshot_size rt objs"
proof -
  have "12 * length objs \<le> sum_list (map (\<lambda>obj. 12 + length (display_name rt obj)) objs)"
    by (induction objs) auto
  then show ?thesis by (simp add: snapshot_size_def)
qed

lemma alloc_names_ok:
  assumes "alloc_plan p = []" "n < 2 ^ 31"
  shows "alloc_names n p = (True, p)"
proof -
  have a: "(of_nat n * 8 :: 64 word) = of_nat (n * 8)" "(of_nat n * 4 :: 64 word) = of_nat (n * 4)"
    by simp_all
  have s8: "n * 8 < 2 ^ 63" and s4: "n * 4 < 2 ^ 63" using assms(2) by simp_all
  have "c_alloc (of_nat (n * 8)) p = (True, p)"
    by (rule c_alloc_ok [OF assms(1) of_nat_64_not_big [OF s8]])
  moreover have "c_alloc (of_nat (n * 4)) p = (True, p)"
    by (rule c_alloc_ok [OF assms(1) of_nat_64_not_big [OF s4]])
  ultimately show ?thesis unfolding alloc_names_def a by simp
qed

lemma zip3_map:
  "zip (map f xs) (zip (map g xs) (map h xs)) = map (\<lambda>x. (f x, g x, h x)) xs"
  by (induction xs) auto

lemma record_bytes_named:
  assumes "named rt obj"
  shows "record_bytes (t, of_nat (length (display_name rt obj)), Some (display_name rt obj))
           = wire_record (t, display_name rt obj)"
proof -
  note l = named_length [OF assms]
  have "sint (of_nat (length (display_name rt obj)) :: jint) = int (length (display_name rt obj))"
    by (rule sint_of_nat_small [OF l(2)])
  then show ?thesis using l(1) by (simp add: record_bytes_def wire_record_def)
qed

lemma length_wire_record: "length (wire_record e) = 12 + length (snd e)"
  by (simp add: wire_record_def length_be64 length_be32)

lemma length_wire_snapshot:
  "length (wire_snapshot (map (\<lambda>e. (snd e, display_name rt (fst e))) resolved))
     = snapshot_size rt (map fst resolved)"
proof -
  have "length (concat (map wire_record (map (\<lambda>e. (snd e, display_name rt (fst e))) resolved)))
      = sum_list (map (\<lambda>obj. 12 + length (display_name rt obj)) (map fst resolved))"
    by (induction resolved) (auto simp: length_wire_record)
  then show ?thesis by (simp add: wire_snapshot_def snapshot_size_def length_be32)
qed

lemma snapshot_names_layout:
  assumes cls: "FindClass rt (bytes_of ''java/lang/Class'') \<noteq> None" and mid: "GetMethodID rt"
    and plan: "alloc_plan p = []"
    and nm: "\<forall>e \<in> set resolved. named rt (fst e)"
    and sz: "snapshot_size rt (map fst resolved) \<le> 2 ^ 31 - 1"
    and arr: "NewByteArray rt (snapshot_size rt (map fst resolved))"
  shows "snapshot_names rt resolved p j =
           Inr (Some (wire_snapshot (map (\<lambda>e. (snd e, display_name rt (fst e))) resolved)),
                p, delete_refs (map fst resolved) j)"
proof -
  let ?objs = "map fst resolved"
  let ?S = "snapshot_size rt ?objs"
  let ?es = "map (\<lambda>e. (snd e, display_name rt (fst e))) resolved"
  let ?names = "map (\<lambda>obj. Some (display_name rt obj)) ?objs"
  let ?lens = "map (\<lambda>obj. (of_nat (length (display_name rt obj)) :: jint)) ?objs"
  have n: "length resolved < 2 ^ 31"
    using length_le_snapshot_size [of ?objs rt] sz by simp
  have an: "alloc_names (length resolved) p = (True, p)"
    by (rule alloc_names_ok [OF plan n])
  have nm': "\<forall>obj \<in> set ?objs. named rt obj" using nm by auto
  have tot: "(4 :: 64 word) + of_nat (sum_list (map (\<lambda>obj. 12 + length (display_name rt obj)) ?objs))
      = of_nat ?S"
    by (simp add: snapshot_size_def)
  have cn: "collect_names rt ?objs p j [] [] 4 = (Some (?names, ?lens, of_nat ?S), p, delete_refs ?objs j)"
    using collect_names_named [OF nm' plan, of j "[]" "[]" 4] unfolding tot by simp
  have S63: "?S < 2 ^ 63" using sz by simp
  have ut: "unat (of_nat ?S :: 64 word) = ?S" by (rule unat_of_nat_small64 [OF S63])
  have small: "\<not> (of_nat ?S :: 64 word) > 0x7FFFFFFF"
  proof -
    have "unat (0x7FFFFFFF :: 64 word) = 0x7FFFFFFF" by simp
    then show ?thesis using sz by (simp only: word_less_nat_alt ut) simp
  qed
  have al: "c_alloc (of_nat ?S) p = (True, p)"
    by (intro c_alloc_ok plan of_nat_64_not_big S63)
  have fit: "names_fit ?lens ?names"
  proof -
    have "nat (sint (of_nat (length (display_name rt obj)) :: jint)) \<le> length (display_name rt obj)"
      if "named rt obj" for obj
      using sint_of_nat_small [OF named_length(2) [OF that]] by simp
    then show ?thesis using nm
      by (fastforce simp: names_fit_def zip_map_map zip_same)
  qed
  have z: "zip (map snd resolved) (zip ?lens ?names)
      = map (\<lambda>e. (snd e, of_nat (length (display_name rt (fst e))), Some (display_name rt (fst e))))
          resolved"
    by (induction resolved) auto
  have rb: "concat (map record_bytes (zip (map snd resolved) (zip ?lens ?names)))
      = concat (map wire_record ?es)"
    unfolding z using nm
    by (induction resolved) (auto simp: record_bytes_named)
  have enc: "encode_snapshot (malloc_block rt ?S) (of_nat (length resolved)) (map snd resolved)
      ?lens ?names = Some (wire_snapshot ?es)"
  proof -
    have l1: "length ?lens = length (map snd resolved)"
      and l2: "length ?names = length (map snd resolved)" by simp_all
    have ws: "wire_snapshot ?es
        = be32 (of_nat (length resolved)) @ concat (map wire_record ?es)"
      by (simp add: wire_snapshot_def)
    have "encode_snapshot (malloc_block rt ?S) (of_nat (length resolved)) (map snd resolved)
        ?lens ?names = write_at (malloc_block rt ?S) 0 (wire_snapshot ?es)"
      by (simp only: encode_snapshot_write_at [OF l1 l2 fit] rb ws)
    also have "\<dots> = Some (wire_snapshot ?es)"
      by (rule write_at_exact) (simp add: length_wire_snapshot length_malloc_block)
    finally show ?thesis .
  qed
  have out: "snapshot_output rt resolved ?names ?lens (of_nat ?S) p (delete_refs ?objs j)
      = Inr (Some (wire_snapshot ?es), p, delete_refs ?objs j)"
    using small arr by (simp add: snapshot_output_def al ut enc del: map_map)
  show ?thesis
    using cls mid by (simp add: snapshot_names_def an cn out del: map_map)
qed

lemma name_entry_degraded:
  "resolved_name rt obj = None \<Longrightarrow>
     name_entry rt obj p j t = (Some (None, 0, t), p, delete_refs [obj] j)"
  by (auto simp: resolved_name_def name_entry_def split: option.splits Option.bind_splits)

lemma display_name_degraded: "resolved_name rt obj = None \<Longrightarrow> display_name rt obj = []"
  by (simp add: display_name_def)

lemma named_not_degraded: "named rt obj \<Longrightarrow> resolved_name rt obj \<noteq> None"
  by (auto simp: named_def)

lemma counted_named: "named rt obj \<Longrightarrow> counted rt obj = 12 + length (display_name rt obj)"
  by (simp add: counted_def)

lemma counted_degraded: "\<not> named rt obj \<Longrightarrow> counted rt obj = 0"
  by (simp add: counted_def)

lemma counted_le1: "counted rt obj \<le> 12 + length (display_name rt obj)"
  by (simp add: counted_def)

lemma collect_names_mixed:
  assumes "\<forall>obj \<in> set objs. named rt obj \<or> resolved_name rt obj = None"
    and "alloc_plan p = []"
  shows "collect_names rt objs p j names lens t =
           (Some (names @ map (\<lambda>obj. if named rt obj then Some (display_name rt obj) else None) objs,
                  lens @ map (\<lambda>obj. of_nat (length (display_name rt obj))) objs,
                  t + of_nat (sum_list (map (counted rt) objs))),
            p, delete_refs objs j)"
  using assms
proof (induction objs arbitrary: j names lens t)
  case Nil
  then show ?case by simp
next
  case (Cons obj objs)
  then have rest: "\<forall>obj \<in> set objs. named rt obj \<or> resolved_name rt obj = None" by simp
  have d: "delete_refs (obj # objs) j = delete_refs objs (delete_refs [obj] j)"
    using delete_refs_append [of "[obj]" objs j] by simp
  show ?case
  proof (cases "named rt obj")
    case True
    note st = name_entry_named [OF True Cons.prems(2), of j t]
    show ?thesis
      by (simp only: collect_names.simps st prod.case option.case
            Cons.IH [OF rest Cons.prems(2)] d)
         (simp add: add.assoc counted_named [OF True] True)
  next
    case False
    with Cons.prems(1) have dg: "resolved_name rt obj = None" by simp
    note st = name_entry_degraded [OF dg, of p j t]
    show ?thesis
      by (simp only: collect_names.simps st prod.case option.case
            Cons.IH [OF rest Cons.prems(2)] d)
         (simp add: counted_degraded [OF False] False display_name_degraded [OF dg])
  qed
qed

lemma counted_le: "sum_list (map (counted rt) objs) \<le> sum_list (map (\<lambda>obj. 12 + length (display_name rt obj)) objs)"
proof (induction objs)
  case Nil
  then show ?case by simp
next
  case (Cons obj objs)
  with counted_le1 [of rt obj] show ?case by simp
qed

lemma counted_less:
  assumes "\<exists>obj \<in> set objs. \<not> named rt obj"
  shows "sum_list (map (counted rt) objs) < sum_list (map (\<lambda>obj. 12 + length (display_name rt obj)) objs)"
  using assms
proof (induction objs)
  case Nil
  then show ?case by simp
next
  case (Cons obj objs)
  show ?case
  proof (cases "named rt obj")
    case True
    with Cons.prems have "\<exists>obj \<in> set objs. \<not> named rt obj" by auto
    from Cons.IH [OF this] show ?thesis by (simp add: counted_named [OF True])
  next
    case False
    with counted_le [of rt objs] show ?thesis by (simp add: counted_degraded [OF False])
  qed
qed

lemma length_record_bytes_mixed:
  assumes "named rt obj \<or> resolved_name rt obj = None"
  shows "length (record_bytes (t, of_nat (length (display_name rt obj)),
            if named rt obj then Some (display_name rt obj) else None))
         = 12 + length (display_name rt obj)"
proof (cases "named rt obj")
  case True
  then show ?thesis
    by (simp add: record_bytes_named length_wire_record)
next
  case False
  with assms have "display_name rt obj = []" by (simp add: display_name_degraded)
  with False show ?thesis by (simp add: record_bytes_def length_be64 length_be32)
qed

lemma degraded_entry_overruns_buffer:
  assumes cls: "FindClass rt (bytes_of ''java/lang/Class'') \<noteq> None" and mid: "GetMethodID rt"
    and plan: "alloc_plan p = []"
    and mixed: "\<forall>e \<in> set resolved. named rt (fst e) \<or> resolved_name rt (fst e) = None"
    and deg: "\<exists>e \<in> set resolved. resolved_name rt (fst e) = None"
    and sz: "snapshot_size rt (map fst resolved) \<le> 2 ^ 31 - 1"
  shows "snapshot_names rt resolved p j = Inl Store_out_of_bounds"
proof -
  let ?objs = "map fst resolved"
  define T where "T = 4 + sum_list (map (counted rt) ?objs)"
  let ?T = T
  let ?names = "map (\<lambda>obj. if named rt obj then Some (display_name rt obj) else None) ?objs"
  let ?lens = "map (\<lambda>obj. (of_nat (length (display_name rt obj)) :: jint)) ?objs"
  let ?bytes = "be32 (of_nat (length resolved)) @
      concat (map record_bytes (zip (map snd resolved) (zip ?lens ?names)))"
  have n: "length resolved < 2 ^ 31"
    using length_le_snapshot_size [of ?objs rt] sz by simp
  have an: "alloc_names (length resolved) p = (True, p)"
    by (rule alloc_names_ok [OF plan n])
  have mixed': "\<forall>obj \<in> set ?objs. named rt obj \<or> resolved_name rt obj = None"
    using mixed by auto
  have deg': "\<exists>obj \<in> set ?objs. \<not> named rt obj"
    using deg named_not_degraded by fastforce
  have tot: "(4 :: 64 word) + of_nat (sum_list (map (counted rt) ?objs)) = of_nat ?T"
    by (simp add: T_def)
  have cn: "collect_names rt ?objs p j [] [] 4 = (Some (?names, ?lens, of_nat ?T), p, delete_refs ?objs j)"
    using collect_names_mixed [OF mixed' plan, of j "[]" "[]" 4] unfolding tot by simp
  have less: "?T < snapshot_size rt ?objs"
    using counted_less [OF deg'] by (simp add: snapshot_size_def T_def)
  have T63: "?T < 2 ^ 63" using less sz by simp
  have ut: "unat (of_nat ?T :: 64 word) = ?T" by (rule unat_of_nat_small64 [OF T63])
  have small: "\<not> (of_nat ?T :: 64 word) > 0x7FFFFFFF"
  proof -
    have "unat (0x7FFFFFFF :: 64 word) = 0x7FFFFFFF" by simp
    then show ?thesis using sz less by (simp only: word_less_nat_alt ut) simp
  qed
  have al: "c_alloc (of_nat ?T) p = (True, p)"
    by (intro c_alloc_ok plan of_nat_64_not_big T63)
  have fit: "names_fit ?lens ?names"
  proof -
    have "nat (sint (of_nat (length (display_name rt obj)) :: jint)) \<le> length (display_name rt obj)"
      if "named rt obj" for obj
      using sint_of_nat_small [OF named_length(2) [OF that]] by simp
    then show ?thesis
      by (fastforce simp: names_fit_def zip_map_map zip_same split: if_splits)
  qed
  have lb: "length ?bytes = snapshot_size rt ?objs"
  proof -
    have z: "zip (map snd resolved) (zip ?lens ?names)
        = map (\<lambda>e. (snd e, of_nat (length (display_name rt (fst e))),
                if named rt (fst e) then Some (display_name rt (fst e)) else None)) resolved"
      by (induction resolved) auto
    have "length (concat (map record_bytes (zip (map snd resolved) (zip ?lens ?names))))
        = sum_list (map (\<lambda>obj. 12 + length (display_name rt obj)) ?objs)"
      unfolding z using mixed
      by (induction resolved) (auto simp: length_record_bytes_mixed simp del: map_map)
    then show ?thesis by (simp add: snapshot_size_def length_be32 del: map_map)
  qed
  have l1: "length ?lens = length (map snd resolved)"
    and l2: "length ?names = length (map snd resolved)" by simp_all
  have enc: "encode_snapshot (malloc_block rt ?T) (of_nat (length resolved)) (map snd resolved)
      ?lens ?names = None"
  proof -
    have "encode_snapshot (malloc_block rt ?T) (of_nat (length resolved)) (map snd resolved)
        ?lens ?names = write_at (malloc_block rt ?T) 0 ?bytes"
      by (simp only: encode_snapshot_write_at [OF l1 l2 fit])
    also have "\<dots> = None"
      by (rule write_at_short) (use less lb in \<open>simp add: length_malloc_block\<close>)
    finally show ?thesis .
  qed
  have out: "snapshot_output rt resolved ?names ?lens (of_nat ?T) p (delete_refs ?objs j)
      = Inl Store_out_of_bounds"
    using small by (simp add: snapshot_output_def al ut enc del: map_map)
  show ?thesis
    using cls mid by (simp add: snapshot_names_def an cn out del: map_map)
qed

lemma be32_0: "be32 0 = [0, 0, 0, 0]"
  by (simp add: be32_def)

lemma wire_snapshot_Nil: "wire_snapshot [] = [0, 0, 0, 0]"
  by (simp add: wire_snapshot_def be32_0)

lemma snapshot_names_Nil:
  assumes cls: "FindClass rt (bytes_of ''java/lang/Class'') \<noteq> None"
    and mid: "GetMethodID rt"
    and buf: "fst (c_alloc 4 p)"
    and arr: "NewByteArray rt 4"
  shows "snapshot_names rt [] p j = Inr (Some [0, 0, 0, 0], snd (c_alloc 4 p), j)"
proof -
  have enc: "encode_snapshot (malloc_block rt 4) 0 [] [] [] = Some [0, 0, 0, 0]"
    by (simp add: encode_snapshot_write_at names_fit_def be32_0 write_at_exact
          length_malloc_block)
  obtain ok p' where a: "c_alloc 4 p = (ok, p')" by (cases "c_alloc 4 p")
  with buf have ok: "ok" by simp
  show ?thesis
    using cls mid arr a ok enc
    by (simp add: snapshot_names_def alloc_names_def snapshot_output_def)
qed

text \<open>
  C9.  When the pass collects no identifier, or the resolution gives no object or
  fails, \<open>nativeSnapshotBytes\<close> does not return NULL: it returns the four bytes
  00 00 00 00, which is the layout of a snapshot of no records.  The steps that follow
  the resolution return NULL when they fail: the lookups of \<open>java/lang/Class\<close> and of
  \<open>getName\<close>, the allocation of the 4-byte buffer and that of the Java array; they
  are taken to succeed.  The buffer is a fresh \<open>malloc\<close>ed block of any contents
  (\<open>uninitialised rt\<close> is arbitrary): the four zero bytes are the count field that the
  encoder stores.
\<close>

theorem snapshot_of_nothing:
  assumes jvmti: "g_jvmti p" and env: "env"
    and chars: "GetStringUTFChars rt jcn = Some className"
    and target: "FindClass rt className = Some targetClass"
    and pass: "IterateThroughHeap rt (Some targetClass) heap_tagging_cb empty_collector
                 (p\<lparr>g_local_counter := 1\<rparr>) (snd (clear_all_tags rt p j)) = (err, p3, j3, col)"
    and empty: "sint (count col) \<le> 0
                  \<or> GetObjectsWithTags rt (heap j3) (collected_tags col) = Some []
                  \<or> GetObjectsWithTags rt (heap j3) (collected_tags col) = None"
    and cls: "FindClass rt (bytes_of ''java/lang/Class'') \<noteq> None"
    and mid: "GetMethodID rt"
    and buf: "fst (c_alloc 4 p3)"
    and arr: "NewByteArray rt 4"
  shows "nativeSnapshotBytes rt env (Some jcn) p j
           = Inr (Some (wire_snapshot []), snd (c_alloc 4 p3), j3)"
proof -
  have res: "resolve_tags rt col j3 = ([], j3)"
    using empty
    by (elim disjE) (simp_all add: resolve_tags_def get_objects_def List.map_filter_def)
  have cl: "clear_all_tags rt p j = (p, snd (clear_all_tags rt p j))"
    by (simp add: clear_all_tags_eq)
  show ?thesis
    unfolding nativeSnapshotBytes_def
    using jvmti env chars target
    apply simp
    apply (subst cl)
    apply (simp add: pass res snapshot_names_Nil [OF cls mid buf arr] wire_snapshot_Nil)
    done
qed

lemma name_C: "bytes_of ''C'' \<noteq> bytes_of ''A''" "bytes_of ''C'' \<noteq> bytes_of ''B''"
  by (simp_all add: bytes_of_def word_unat_eq_iff)

theorem snapshot_of_nothing_witness:
  "nativeSnapshotBytes (demo_runtime demo_heap) True (Some (bytes_of ''C'')) (initial_process [])
       \<lparr>heap = demo_heap, local_refs = []\<rparr>
     = Inr (Some [0, 0, 0, 0], initial_process [],
            \<lparr>heap = map (\<lambda>ob. ob\<lparr>obj_tag := 0\<rparr>) demo_heap, local_refs = []\<rparr>)"
proof -
  let ?rt = "demo_runtime demo_heap"
  let ?p = "initial_process []"
  let ?j = "\<lparr>heap = demo_heap, local_refs = []\<rparr>"
  let ?j1 = "\<lparr>heap = map (\<lambda>ob. ob\<lparr>obj_tag := 0\<rparr>) demo_heap, local_refs = []\<rparr>"
  have pass: "IterateThroughHeap ?rt (Some 0) heap_tagging_cb empty_collector
                (?p\<lparr>g_local_counter := 1\<rparr>) (snd (clear_all_tags ?rt ?p ?j))
              = (False, ?p, ?j1, empty_collector)"
    by (simp add: clear_all_tags_eq pass_eval demo_heap_def)
  have chars: "GetStringUTFChars ?rt (bytes_of ''C'') = Some (bytes_of ''C'')"
    by (simp add: demo_runtime_def)
  have target: "FindClass ?rt (bytes_of ''C'') = Some 0"
    using name_C by (simp add: demo_runtime_def)
  have "nativeSnapshotBytes ?rt True (Some (bytes_of ''C'')) ?p ?j
          = Inr (Some (wire_snapshot []), snd (c_alloc 4 ?p), ?j1)"
    by (rule snapshot_of_nothing [OF _ _ chars target pass])
       (simp_all add: demo_runtime_def initial_process_def empty_collector_def c_alloc_def)
  then show ?thesis
    by (simp add: wire_snapshot_Nil c_alloc_def initial_process_def)
qed

text \<open>The entry (5, "A") of the specification.\<close>

lemma wire_snapshot_5_A:
  "wire_snapshot [(5, bytes_of ''A'')]
     = [0, 0, 0, 1,  0, 0, 0, 0, 0, 0, 0, 5,  0, 0, 0, 1,  65]"
  by (simp add: wire_snapshot_def wire_record_def be32_def be64_def bytes_of_def)

lemma encode_snapshot_5_A:
  "length buf = 17 \<Longrightarrow>
   encode_snapshot buf 1 [5] [1] [Some (bytes_of ''A'')]
     = Some [0, 0, 0, 1,  0, 0, 0, 0, 0, 0, 0, 5,  0, 0, 0, 1,  65]"
  by (simp add: encode_snapshot_write_at names_fit_def bytes_of_def record_bytes_def
        be32_def be64_def write_at_def)

lemma replicate_numeral: "replicate (numeral k) x = x # replicate (pred_numeral k) x"
  by (simp add: numeral_eq_Suc)

lemma nativeSnapshotBytes_after_pass:
  assumes jvmti: "g_jvmti p" and env: "env"
    and chars: "GetStringUTFChars rt jcn = Some className"
    and target: "FindClass rt className = Some targetClass"
    and pass: "IterateThroughHeap rt (Some targetClass) heap_tagging_cb empty_collector
                 (p\<lparr>g_local_counter := 1\<rparr>) (snd (clear_all_tags rt p j)) = (err, p3, j3, col)"
  shows "nativeSnapshotBytes rt env (Some jcn) p j
           = snapshot_names rt (fst (resolve_tags rt col j3)) p3 (snd (resolve_tags rt col j3))"
proof -
  have cl: "clear_all_tags rt p j = (p, snd (clear_all_tags rt p j))"
    by (simp add: clear_all_tags_eq)
  show ?thesis
    unfolding nativeSnapshotBytes_def
    using jvmti env chars target
    apply simp
    apply (subst cl)
    apply (simp add: pass split: prod.splits)
    done
qed

text \<open>
  C2.  For entries that all have a name the output is the layout \<open>wire_snapshot\<close>
  (lemma \<open>snapshot_names_layout\<close>), and the encoder stores the entry (5, "A") as the 17
  bytes of \<open>encode_snapshot_5_A\<close>.  For an entry whose class name cannot be obtained
  the loop that sizes the buffer goes on to the next entry before it adds the 12 bytes
  of the identifier and the length, and the encoder stores these 12 bytes for every
  entry (lemma \<open>degraded_entry_overruns_buffer\<close>).  Here the heap holds one instance of
  a class whose \<open>getName\<close> fails: the buffer has 4 bytes and the encoder stores the
  identifier behind them.
\<close>

theorem unnamed_entry_overruns_buffer:
  "nativeSnapshotBytes (demo_runtime [\<lparr>obj_tag = 0, obj_class = 0\<rparr>]) True
       (Some (bytes_of ''C'')) (initial_process [])
       \<lparr>heap = [\<lparr>obj_tag = 0, obj_class = 0\<rparr>], local_refs = []\<rparr>
     = Inl Store_out_of_bounds"
proof -
  let ?h = "[\<lparr>obj_tag = 0, obj_class = 0\<rparr>]"
  let ?rt = "demo_runtime ?h"
  let ?p = "initial_process []"
  let ?j = "\<lparr>heap = ?h, local_refs = []\<rparr>"
  obtain err p3 j3 col where
    pass: "IterateThroughHeap ?rt (Some 0) heap_tagging_cb empty_collector
             (?p\<lparr>g_local_counter := 1\<rparr>) (snd (clear_all_tags ?rt ?p ?j)) = (err, p3, j3, col)"
    by (metis prod_cases4)
  then have p3: "alloc_plan p3 = []"
    and res: "resolve_tags ?rt col j3 = ([(Some 0, 0x100000001)], j3\<lparr>local_refs := [0]\<rparr>)"
    by (auto simp: clear_all_tags_eq pass_eval resolve_tags_def get_objects_def
          objects_with_tags_def collected_tags_def List.map_filter_def replicate_numeral)
  have chars: "GetStringUTFChars ?rt (bytes_of ''C'') = Some (bytes_of ''C'')"
    by (simp add: demo_runtime_def)
  have target: "FindClass ?rt (bytes_of ''C'') = Some 0"
    using name_C by (simp add: demo_runtime_def)
  have unnamed: "resolved_name ?rt (Some 0) = None"
    by (simp add: resolved_name_def demo_runtime_def)
  have names: "snapshot_names ?rt [(Some 0, 0x100000001)] p3 (j3\<lparr>local_refs := [0]\<rparr>)
          = Inl Store_out_of_bounds"
    by (rule degraded_entry_overruns_buffer [OF _ _ p3])
       (simp_all add: unnamed snapshot_size_def display_name_def, simp_all add: demo_runtime_def)
  have "nativeSnapshotBytes ?rt True (Some (bytes_of ''C'')) ?p ?j
          = snapshot_names ?rt (fst (resolve_tags ?rt col j3)) p3 (snd (resolve_tags ?rt col j3))"
    by (rule nativeSnapshotBytes_after_pass [OF _ _ chars target pass])
       (simp_all add: initial_process_def)
  also have "\<dots> = Inl Store_out_of_bounds"
    unfolding res fst_conv snd_conv by (rule names)
  finally show ?thesis .
qed

theorem unnamed_entry_overruns_buffer_witness:
  "g_jvmti (initial_process []) \<and>
   (\<forall>out. nativeSnapshotBytes (demo_runtime [\<lparr>obj_tag = 0, obj_class = 0\<rparr>]) True
            (Some (bytes_of ''C'')) (initial_process [])
            \<lparr>heap = [\<lparr>obj_tag = 0, obj_class = 0\<rparr>], local_refs = []\<rparr> \<noteq> Inr out)"
  using unnamed_entry_overruns_buffer by (simp add: initial_process_def)

text \<open>
  With one instance of the class and the first growth of the tag buffer failing, the
  result is the snapshot of no records and the object keeps its identifier.
\<close>

lemma failed_first_append_gives_snapshot:
  "nativeSnapshotBytes (demo_runtime [\<lparr>obj_tag = 0, obj_class = 1\<rparr>]) True
       (Some (bytes_of ''A'')) (initial_process [False])
       \<lparr>heap = [\<lparr>obj_tag = 0, obj_class = 1\<rparr>], local_refs = []\<rparr>
     = Inr (Some [0, 0, 0, 0],
            \<lparr>g_jvmti = True, g_epoch = 1, g_local_counter = 2, alloc_plan = []\<rparr>,
            \<lparr>heap = [\<lparr>obj_tag = 0x100000001, obj_class = 1\<rparr>], local_refs = []\<rparr>)"
proof -
  let ?h = "[\<lparr>obj_tag = 0, obj_class = 1\<rparr>]"
  let ?rt = "demo_runtime ?h"
  let ?p = "initial_process [False]"
  let ?j = "\<lparr>heap = ?h, local_refs = []\<rparr>"
  let ?p3 = "\<lparr>g_jvmti = True, g_epoch = 1, g_local_counter = 2, alloc_plan = []\<rparr>"
  let ?j3 = "\<lparr>heap = [\<lparr>obj_tag = 0x100000001, obj_class = 1\<rparr>], local_refs = []\<rparr>"
  have pass: "IterateThroughHeap ?rt (Some 1) heap_tagging_cb empty_collector
             (?p\<lparr>g_local_counter := 1\<rparr>) (snd (clear_all_tags ?rt ?p ?j))
           = (False, ?p3, ?j3, empty_collector\<lparr>alloc_failed := True\<rparr>)"
    by (simp add: clear_all_tags_eq pass_eval)
  have res: "resolve_tags ?rt (empty_collector\<lparr>alloc_failed := True\<rparr>) ?j3 = ([], ?j3)"
    by (simp add: resolve_tags_def empty_collector_def)
  have chars: "GetStringUTFChars ?rt (bytes_of ''A'') = Some (bytes_of ''A'')"
    by (simp add: demo_runtime_def)
  have target: "FindClass ?rt (bytes_of ''A'') = Some 1"
    by (simp add: demo_runtime_def)
  have names: "snapshot_names ?rt [] ?p3 ?j3 = Inr (Some [0, 0, 0, 0], snd (c_alloc 4 ?p3), ?j3)"
    by (rule snapshot_names_Nil) (simp_all add: demo_runtime_def c_alloc_def)
  have "nativeSnapshotBytes ?rt True (Some (bytes_of ''A'')) ?p ?j
          = snapshot_names ?rt (fst (resolve_tags ?rt (empty_collector\<lparr>alloc_failed := True\<rparr>) ?j3))
              ?p3 (snd (resolve_tags ?rt (empty_collector\<lparr>alloc_failed := True\<rparr>) ?j3))"
    by (rule nativeSnapshotBytes_after_pass [OF _ _ chars target pass])
       (simp_all add: initial_process_def)
  also have "\<dots> = Inr (Some [0, 0, 0, 0], snd (c_alloc 4 ?p3), ?j3)"
    unfolding res fst_conv snd_conv by (rule names)
  finally show ?thesis by (simp add: c_alloc_def)
qed


section \<open>Passes with a given allocator\<close>

text \<open>
  What a pass does when the collector has room for every object it will tag: no
  allocation is requested and the collector does not fail.  With it the passes over
  heaps of many equal objects are followed append by append.
\<close>

lemma sint_succ:
  fixes x y :: "32 word"
  assumes "sint x < sint y"
  shows "sint (x + 1) = sint x + 1"
proof -
  have "sint y < 2 ^ 31" using sint_less [of y] by simp
  with assms have up: "sint x + 1 < 2 ^ 31" by simp
  have lo: "- (2 ^ 31) \<le> sint x + 1" using sint_greater_eq [of x] by simp
  have "x + 1 = word_of_int (sint x + 1)" by simp
  then show ?thesis
    using up lo by (simp only: signed_of_int) (simp add: signed_take_bit_int_eq_self)
qed

lemma tag_add_room:
  "\<not> alloc_failed c \<Longrightarrow> sint (count c) < sint (capacity c) \<Longrightarrow>
     tag_add p c t = (0, p, c\<lparr>tags := (tags c)[nat (sint (count c)) := t], count := count c + 1\<rparr>)"
  by (simp add: tag_add_def)

lemma visit_unvisited:
  "\<forall>ob \<in> set obs. \<not> visited klass ob \<Longrightarrow> visit_objects cb klass obs p u = (obs, p, u)"
  by (induction obs) simp_all

lemma visit_room:
  assumes "\<not> alloc_failed col"
    and "sint (count col) + int (length (filter (eligible klass) obs)) \<le> sint (capacity col)"
  shows "\<exists>obs' p' col'.
           visit_objects heap_tagging_cb klass obs p col = (obs', p', col') \<and>
           \<not> alloc_failed col' \<and> alloc_plan p' = alloc_plan p \<and>
           capacity col' = capacity col \<and>
           count col' = count col + of_nat (length (filter (eligible klass) obs)) \<and>
           (\<forall>ys. visit_objects heap_tagging_cb klass (obs @ ys) p col =
                   (case visit_objects heap_tagging_cb klass ys p' col' of
                      (ys', p'', col'') \<Rightarrow> (obs' @ ys', p'', col'')))"
  using assms
proof (induction obs arbitrary: p col)
  case Nil
  then show ?case by simp
next
  case (Cons ob obs)
  show ?case
  proof (cases "eligible klass ob")
    case False
    from Cons.prems False have room: 
      "sint (count col) + int (length (filter (eligible klass) obs)) \<le> sint (capacity col)"
      by simp
    from Cons.IH [OF Cons.prems(1) room, of p] obtain obs' p' col' where
      r: "visit_objects heap_tagging_cb klass obs p col = (obs', p', col')"
         "\<not> alloc_failed col'" "alloc_plan p' = alloc_plan p" "capacity col' = capacity col"
         "count col' = count col + of_nat (length (filter (eligible klass) obs))"
         "\<forall>ys. visit_objects heap_tagging_cb klass (obs @ ys) p col =
                (case visit_objects heap_tagging_cb klass ys p' col' of
                   (ys', p'', col'') \<Rightarrow> (obs' @ ys', p'', col''))"
      by blast
    show ?thesis
    proof (intro exI conjI)
      show "visit_objects heap_tagging_cb klass (ob # obs) p col = (ob # obs', p', col')"
        using False r(1)
        by (auto simp: eligible_def heap_tagging_cb_nonzero set_slot_same)
      show "\<forall>ys. visit_objects heap_tagging_cb klass ((ob # obs) @ ys) p col =
                (case visit_objects heap_tagging_cb klass ys p' col' of
                   (ys', p'', col'') \<Rightarrow> ((ob # obs') @ ys', p'', col''))"
        using False r(6)
        by (auto simp: eligible_def heap_tagging_cb_nonzero set_slot_same split: prod.splits)
    qed (use r False in simp_all)
  next
    case True
    let ?t = "make_tag (g_epoch p) (g_local_counter p)"
    let ?p1 = "p\<lparr>g_local_counter := g_local_counter p + 1\<rparr>"
    let ?c1 = "col\<lparr>tags := (tags col)[nat (sint (count col)) := ?t], count := count col + 1\<rparr>"
    from Cons.prems True have lt: "sint (count col) < sint (capacity col)" by simp
    have ta: "tag_add ?p1 col ?t = (0, ?p1, ?c1)"
      by (rule tag_add_room [OF Cons.prems(1) lt])
    have cb: "heap_tagging_cb p (Some (obj_tag ob)) col
                = (JVMTI_ITERATION_CONTINUE, ?p1, Some ?t, ?c1)"
      using True by (simp add: eligible_def heap_tagging_cb_unfold ta)
    have nf: "\<not> alloc_failed ?c1" using Cons.prems(1) by simp
    have room: "sint (count ?c1) + int (length (filter (eligible klass) obs)) \<le> sint (capacity ?c1)"
      using Cons.prems(2) True by (simp add: sint_succ [OF lt])
    from Cons.IH [OF nf room, of ?p1] obtain obs' p' col' where
      r: "visit_objects heap_tagging_cb klass obs ?p1 ?c1 = (obs', p', col')"
         "\<not> alloc_failed col'" "alloc_plan p' = alloc_plan ?p1" "capacity col' = capacity ?c1"
         "count col' = count ?c1 + of_nat (length (filter (eligible klass) obs))"
         "\<forall>ys. visit_objects heap_tagging_cb klass (obs @ ys) ?p1 ?c1 =
                (case visit_objects heap_tagging_cb klass ys p' col' of
                   (ys', p'', col'') \<Rightarrow> (obs' @ ys', p'', col''))"
      by blast
    have vis: "visited klass ob" using True by (simp add: eligible_def)
    show ?thesis
    proof (intro exI conjI)
      show "visit_objects heap_tagging_cb klass (ob # obs) p col
              = (set_slot ob (Some ?t) # obs', p', col')"
        using vis cb r(1) by simp
      show "\<forall>ys. visit_objects heap_tagging_cb klass ((ob # obs) @ ys) p col =
                (case visit_objects heap_tagging_cb klass ys p' col' of
                   (ys', p'', col'') \<Rightarrow> ((set_slot ob (Some ?t) # obs') @ ys', p'', col''))"
        using vis cb r(6) by (simp split: prod.splits)
    qed (use r True in simp_all)
  qed
qed

lemma retag_tag:
  assumes "i < length h"
  shows "obj_tag (retag klass e 1 m h ! i) =
           (if eligible klass (h ! i) \<and> rank klass h i < m
            then make_tag e (of_nat (Suc (rank klass h i))) else obj_tag (h ! i))"
  by (simp add: retag_nth [OF assms])

lemma new_tag_mem:
  assumes "r < m" "m' \<le> m" "m < 2 ^ 32"
  shows "make_tag e (of_nat (Suc r)) \<in> set (map (\<lambda>k. make_tag e (of_nat k)) [1..<Suc m'])
           \<longleftrightarrow> r < m'"
proof
  assume "make_tag e (of_nat (Suc r)) \<in> set (map (\<lambda>k. make_tag e (of_nat k)) [1..<Suc m'])"
  then obtain k where k: "1 \<le> k" "k < Suc m'" "make_tag e (of_nat (Suc r)) = make_tag e (of_nat k)"
    by auto
  have "Suc r < 2 ^ 32" "k < 2 ^ 32" using assms k by simp_all
  from make_tag_inj [OF this k(3)] k(2) show "r < m'" by simp
next
  assume "r < m'"
  then have "Suc r \<in> set [1..<Suc m']" by (simp del: upt_Suc)
  then show "make_tag e (of_nat (Suc r)) \<in> set (map (\<lambda>k. make_tag e (of_nat k)) [1..<Suc m'])"
    unfolding set_map by (rule imageI)
qed

lemma zero_not_new_tag:
  assumes "m' < 2 ^ 32"
  shows "0 \<notin> set (map (\<lambda>k. make_tag e (of_nat k)) [1..<Suc m'])"
proof
  assume "0 \<in> set (map (\<lambda>k. make_tag e (of_nat k)) [1..<Suc m'])"
  then obtain k where k: "1 \<le> k" "k < Suc m'" "make_tag e (of_nat k) = 0" by auto
  have "0 < k" "k < 2 ^ 32" using assms k by simp_all
  from make_tag_nonzero [OF this] k(3) show False by simp
qed

lemma resolved_after_pass:
  assumes le: "m' \<le> m" and m: "m < 2 ^ 32"
    and old: "\<forall>ob \<in> set h. \<not> eligible klass ob \<longrightarrow>
                obj_tag ob \<notin> set (map (\<lambda>k. make_tag e (of_nat k)) [1..<Suc m'])"
  shows "objects_with_tags (retag klass e 1 m h) (map (\<lambda>k. make_tag e (of_nat k)) [1..<Suc m'])
           = Some (map (\<lambda>i. (Some i, make_tag e (of_nat (Suc (rank klass h i)))))
                    (filter (\<lambda>i. eligible klass (h ! i) \<and> rank klass h i < m') [0..<length h]))"
proof -
  let ?ts = "map (\<lambda>k. make_tag e (of_nat k)) [1..<Suc m']"
  let ?h' = "retag klass e 1 m h"
  let ?Q = "\<lambda>i. eligible klass (h ! i) \<and> rank klass h i < m'"
  have m': "m' < 2 ^ 32" using le m by simp
  have P: "obj_tag (?h' ! i) \<in> set ?ts \<longleftrightarrow> ?Q i" if i: "i < length h" for i
  proof (cases "eligible klass (h ! i)")
    case False
    then have "obj_tag (?h' ! i) = obj_tag (h ! i)" by (simp add: retag_tag [OF i])
    moreover have "h ! i \<in> set h" using i by simp
    ultimately show ?thesis using old False by auto
  next
    case True
    show ?thesis
    proof (cases "rank klass h i < m")
      case r: True
      then have "obj_tag (?h' ! i) = make_tag e (of_nat (Suc (rank klass h i)))"
        using True by (simp add: retag_tag [OF i])
      then show ?thesis using new_tag_mem [OF r le m] True by simp
    next
      case r: False
      then have "obj_tag (?h' ! i) = 0" using True by (simp add: retag_tag [OF i] eligible_def)
      then show ?thesis using zero_not_new_tag [OF m'] r le by auto
    qed
  qed
  have f: "filter (\<lambda>i. obj_tag (?h' ! i) \<in> set ?ts) [0..<length h] = filter ?Q [0..<length h]"
  proof (rule filter_cong [OF refl])
    fix i assume "i \<in> set [0..<length h]"
    then have "i < length h" by simp
    then show "(obj_tag (?h' ! i) \<in> set ?ts) = ?Q i" by (rule P)
  qed
  have g: "map (\<lambda>i. (Some i, obj_tag (?h' ! i))) (filter ?Q [0..<length h])
             = map (\<lambda>i. (Some i, make_tag e (of_nat (Suc (rank klass h i))))) (filter ?Q [0..<length h])"
  proof (rule map_cong [OF refl])
    fix i assume "i \<in> set (filter ?Q [0..<length h])"
    then have i: "i < length h" and q: "?Q i" by simp_all
    then have "rank klass h i < m" using le by simp
    then show "(Some i, obj_tag (?h' ! i)) = (Some i, make_tag e (of_nat (Suc (rank klass h i))))"
      using q by (simp add: retag_tag [OF i])
  qed
  show ?thesis
    unfolding objects_with_tags_def length_retag f g ..
qed

lemma eligible_fresh: "eligible (Some c) \<lparr>obj_tag = 0, obj_class = c\<rparr>"
  by (simp add: eligible_def visited_def)

lemma first_append:
  "heap_tagging_cb \<lparr>g_jvmti = True, g_epoch = e, g_local_counter = 1, alloc_plan = True # plan\<rparr>
       (Some 0) empty_collector
     = (JVMTI_ITERATION_CONTINUE,
        \<lparr>g_jvmti = True, g_epoch = e, g_local_counter = 2, alloc_plan = plan\<rparr>,
        Some (make_tag e 1),
        \<lparr>tags = (replicate 128 0)[0 := make_tag e 1], count = 1, capacity = 128,
           alloc_failed = False\<rparr>)"
  by (simp add: heap_tagging_cb_unfold tag_add_def c_alloc_def resize_def empty_collector_def
        Let_def)

lemma append_to_full:
  assumes "\<not> alloc_failed col" "count col = 128" "capacity col = 128"
    and "alloc_plan p = False # plan"
  shows "heap_tagging_cb p (Some 0) col
           = (JVMTI_ITERATION_ABORT,
              p\<lparr>g_local_counter := g_local_counter p + 1, alloc_plan := plan\<rparr>,
              Some (make_tag (g_epoch p) (g_local_counter p)),
              col\<lparr>alloc_failed := True\<rparr>)"
  using assms
  by (simp add: heap_tagging_cb_unfold tag_add_def c_alloc_def Let_def)

lemma replicate_129:
  "replicate 129 x = x # (replicate 127 x @ [x])"
proof -
  have "replicate (Suc (Suc 127)) x = x # (replicate 127 x @ [x])"
    by (simp only: replicate_Suc replicate_append_same)
  then show ?thesis by simp
qed

lemma pass_129:
  fixes h :: "obj list"
  assumes h: "h = replicate 129 \<lparr>obj_tag = 0, obj_class = 1\<rparr>"
    and v: "visit_objects heap_tagging_cb (Some 1) h (initial_process [True, False])
              empty_collector = (h', p3, col3)"
  shows "alloc_failed col3" and "alloc_plan p3 = []" and "g_jvmti p3"
    and "sint (count col3) = 128"
    and "collected_tags col3 = map (\<lambda>k. make_tag 1 (of_nat k)) [1..<Suc 128]"
    and "h' = retag (Some 1) 1 1 129 h"
proof -
  let ?x = "\<lparr>obj_tag = 0, obj_class = 1\<rparr>"
  let ?p0 = "initial_process [True, False]"
  let ?p1 = "\<lparr>g_jvmti = True, g_epoch = 1, g_local_counter = 2, alloc_plan = [False]\<rparr>"
  let ?c1 = "\<lparr>tags = (replicate 128 0)[0 := make_tag 1 1], count = 1, capacity = 128,
               alloc_failed = False\<rparr>"
  have first: "heap_tagging_cb ?p0 (Some 0) empty_collector
                 = (JVMTI_ITERATION_CONTINUE, ?p1, Some (make_tag 1 1), ?c1)"
    unfolding initial_process_def by (rule first_append)
  have nf: "\<not> alloc_failed ?c1" by simp
  have room: "sint (count ?c1) + int (length (filter (eligible (Some 1)) (replicate 127 ?x)))
                \<le> sint (capacity ?c1)"
    using eligible_fresh [of 1] by simp
  from visit_room [OF nf room, of ?p1] obtain obs' p' col' where
    r: "\<not> alloc_failed col'" "alloc_plan p' = alloc_plan ?p1" "capacity col' = capacity ?c1"
       "count col' = count ?c1 + of_nat (length (filter (eligible (Some 1)) (replicate 127 ?x)))"
    and app: "\<forall>ys. visit_objects heap_tagging_cb (Some 1) (replicate 127 ?x @ ys) ?p1 ?c1 =
                (case visit_objects heap_tagging_cb (Some 1) ys p' col' of
                   (ys', p'', col'') \<Rightarrow> (obs' @ ys', p'', col''))"
    by blast
  have cnt: "count col' = 128" using r(4) eligible_fresh [of 1] by simp
  have cap: "capacity col' = 128" using r(3) by simp
  have plan: "alloc_plan p' = [False]" using r(2) by simp
  have last: "heap_tagging_cb p' (Some 0) col'
                = (JVMTI_ITERATION_ABORT,
                   p'\<lparr>g_local_counter := g_local_counter p' + 1, alloc_plan := []\<rparr>,
                   Some (make_tag (g_epoch p') (g_local_counter p')),
                   col'\<lparr>alloc_failed := True\<rparr>)"
    by (rule append_to_full [OF r(1) cnt cap plan])
  have "visit_objects heap_tagging_cb (Some 1) (?x # (replicate 127 ?x @ [?x])) ?p0 empty_collector
          = (set_slot ?x (Some (make_tag 1 1)) #
               obs' @ [set_slot ?x (Some (make_tag (g_epoch p') (g_local_counter p')))],
             p'\<lparr>g_local_counter := g_local_counter p' + 1, alloc_plan := []\<rparr>,
             col'\<lparr>alloc_failed := True\<rparr>)"
    using first app last by (simp add: visited_def)
  with v have res: "col3 = col'\<lparr>alloc_failed := True\<rparr>"
    "p3 = p'\<lparr>g_local_counter := g_local_counter p' + 1, alloc_plan := []\<rparr>"
    unfolding h replicate_129 by simp_all
  show failed: "alloc_failed col3" by (simp add: res)
  show "alloc_plan p3 = []" by (simp add: res)
  show count: "sint (count col3) = 128" by (simp add: res cnt)
  from tagging_walk [OF v] show "g_jvmti p3" by (auto simp: initial_process_def)
  have ctr: "g_local_counter ?p0 = of_nat (Suc 0)" by (simp add: initial_process_def)
  from tagging_walk_inv [OF v col_inv_empty ctr] obtain m where
    m: "h' = retag (Some 1) (g_epoch ?p0) (of_nat (Suc 0)) m h"
       "alloc_failed col3 \<longrightarrow>
          1 \<le> m \<and> sint (count col3) = int (0 + m) - 1 \<and>
          collected_tags col3 =
            collected_tags empty_collector @
            map (\<lambda>k. make_tag (g_epoch ?p0) (of_nat k)) [Suc 0 ..< 0 + m]"
    by blast
  from m(2) failed count have m129: "m = 129" by simp
  from m(2) failed show "collected_tags col3 = map (\<lambda>k. make_tag 1 (of_nat k)) [1..<Suc 128]"
    by (simp add: m129 collected_tags_empty initial_process_def del: upt_Suc)
  from m(1) show "h' = retag (Some 1) 1 1 129 h"
    by (simp add: m129 initial_process_def)
qed

lemma rank_replicate:
  "eligible klass x \<Longrightarrow> i \<le> n \<Longrightarrow> rank klass (replicate n x) i = i"
  by (simp add: rank_def min_def)

lemma sum_list_const:
  "\<forall>x \<in> set xs. g x = (c::nat) \<Longrightarrow> sum_list (map g xs) = c * length xs"
  by (induction xs) simp_all

lemma name_A: "takeWhile (\<lambda>b. b \<noteq> 0) (bytes_of ''A'') = bytes_of ''A''"
  "strlen (bytes_of ''A'') = 1"
  by (simp_all add: bytes_of_def strlen_def)

lemma display_name_A:
  assumes "i < length h" "obj_class (h ! i) = 1"
  shows "resolved_name (demo_runtime h) (Some i) = Some (bytes_of ''A'')"
    and "display_name (demo_runtime h) (Some i) = bytes_of ''A''"
    and "named (demo_runtime h) (Some i)"
proof -
  show r: "resolved_name (demo_runtime h) (Some i) = Some (bytes_of ''A'')"
    using assms by (simp add: resolved_name_def demo_runtime_def)
  show "display_name (demo_runtime h) (Some i) = bytes_of ''A''"
    by (simp add: display_name_def r name_A)
  show "named (demo_runtime h) (Some i)"
    by (simp add: named_def r name_A)
qed

lemma resolved_129:
  assumes h: "h = replicate 129 \<lparr>obj_tag = 0, obj_class = 1\<rparr>"
  shows "objects_with_tags (retag (Some 1) 1 1 129 h)
           (map (\<lambda>k. make_tag 1 (of_nat k)) [1..<Suc 128])
         = Some (map (\<lambda>i. (Some i, make_tag 1 (of_nat (Suc i)))) [0..<128])"
proof -
  let ?x = "\<lparr>obj_tag = 0, obj_class = 1\<rparr>"
  let ?Q = "\<lambda>i. eligible (Some 1) (h ! i) \<and> rank (Some 1) h i < 128"
  have el: "eligible (Some 1) ?x" by (rule eligible_fresh)
  have old: "\<forall>ob \<in> set h. \<not> eligible (Some 1) ob \<longrightarrow>
               obj_tag ob \<notin> set (map (\<lambda>k. make_tag 1 (of_nat k)) [1..<Suc 128])"
    using el by (simp add: h)
  have rk: "rank (Some 1) h i = i" if "i \<le> 129" for i
    unfolding h using el that by (rule rank_replicate)
  have Q: "?Q i \<longleftrightarrow> i < 128" if "i < 129" for i
  proof -
    have "h ! i = ?x" using that by (simp add: h)
    moreover have "rank (Some 1) h i = i" using that by (intro rk) simp
    ultimately show ?thesis using el by simp
  qed
  have "[0..<Suc 128] = [0..<128] @ [128]"
    by (simp only: upt_Suc) simp
  moreover have "length h = Suc 128" by (simp add: h)
  ultimately have "[0..<length h] = [0..<128] @ [128]"
    by (simp only:)
  then have f: "filter ?Q [0..<length h] = [0..<128]"
    using Q by simp
  have g: "map (\<lambda>i. (Some i, make_tag 1 (of_nat (Suc (rank (Some 1) h i))))) [0..<128]
             = map (\<lambda>i. (Some i, make_tag 1 (of_nat (Suc i)))) [0..<128]"
  proof (rule map_cong [OF refl])
    fix i :: nat assume "i \<in> set [0..<128]"
    then have "rank (Some 1) h i = i" by (intro rk) simp
    then show "(Some i, make_tag 1 (of_nat (Suc (rank (Some 1) h i))))
                 = (Some i, make_tag 1 (of_nat (Suc i)))"
      by (simp only:)
  qed
  have "objects_with_tags (retag (Some 1) 1 1 129 h)
           (map (\<lambda>k. make_tag 1 (of_nat k)) [1..<Suc 128])
         = Some (map (\<lambda>i. (Some i, make_tag 1 (of_nat (Suc (rank (Some 1) h i)))))
                  (filter ?Q [0..<length h]))"
    by (rule resolved_after_pass [OF _ _ old]) simp_all
  then show ?thesis unfolding f g .
qed

text \<open>
  C1.  \<open>tag_add\<close> sets \<open>alloc_failed\<close> and the callback aborts the pass, but
  \<open>nativeSnapshotBytes\<close> never reads \<open>alloc_failed\<close>: it goes on with the identifiers
  collected before the failure.  Here the heap holds 129 instances of the class, the
  first growth of the tag buffer (to 128 cells) succeeds and the second one, at the
  129th append, fails: the function returns the snapshot of the 128 identifiers
  collected before, not NULL.
\<close>

theorem failed_append_gives_partial_snapshot:
  "\<exists>p' j'.
     nativeSnapshotBytes (demo_runtime (replicate 129 \<lparr>obj_tag = 0, obj_class = 1\<rparr>)) True
         (Some (bytes_of ''A'')) (initial_process [True, False])
         \<lparr>heap = replicate 129 \<lparr>obj_tag = 0, obj_class = 1\<rparr>, local_refs = []\<rparr>
       = Inr (Some (wire_snapshot
                      (map (\<lambda>k. (make_tag 1 (of_nat k), bytes_of ''A'')) [1..<129])),
              p', j')"
proof -
  define h where "h = replicate 129 \<lparr>obj_tag = 0, obj_class = 1\<rparr>"
  let ?rt = "demo_runtime h"
  let ?p0 = "initial_process [True, False]"
  let ?j0 = "\<lparr>heap = h, local_refs = []\<rparr>"
  let ?resolved = "map (\<lambda>i. (Some i, make_tag 1 (of_nat (Suc i)))) [0..<128]"
  obtain h' p3 col3 where
    v: "visit_objects heap_tagging_cb (Some 1) h ?p0 empty_collector = (h', p3, col3)"
    by (metis prod_cases3)
  note P = pass_129 [OF h_def v]
  let ?j3 = "\<lparr>heap = h', local_refs = []\<rparr>"
  have clr: "snd (clear_all_tags ?rt ?p0 ?j0) = ?j0"
    by (simp add: clear_all_tags_eq h_def)
  have p0: "?p0\<lparr>g_local_counter := 1\<rparr> = ?p0"
    by (simp add: initial_process_def)
  have pass: "IterateThroughHeap ?rt (Some 1) heap_tagging_cb empty_collector
                (?p0\<lparr>g_local_counter := 1\<rparr>) (snd (clear_all_tags ?rt ?p0 ?j0))
              = (False, p3, ?j3, col3)"
    unfolding clr p0 using v by (simp add: IterateThroughHeap_def demo_runtime_def)
  have chars: "GetStringUTFChars ?rt (bytes_of ''A'') = Some (bytes_of ''A'')"
    by (simp add: demo_runtime_def)
  have target: "FindClass ?rt (bytes_of ''A'') = Some 1"
    by (simp add: demo_runtime_def)
  have gowt: "GetObjectsWithTags ?rt = objects_with_tags"
    by (simp add: demo_runtime_def)
  have found: "objects_with_tags h' (collected_tags col3) = Some ?resolved"
    unfolding P(5) P(6) by (rule resolved_129 [OF h_def])
  have res: "fst (resolve_tags ?rt col3 ?j3) = ?resolved"
    by (simp add: resolve_tags_def get_objects_def P(4) gowt found)
  have len: "length h = 129" by (simp add: h_def)
  have cls1: "obj_class (h ! i) = 1" if "i < 129" for i
    using that by (simp add: h_def)
  have nm: "\<forall>e \<in> set ?resolved. named ?rt (fst e)"
    using display_name_A(3) [of _ h] cls1 len by auto
  have dn: "\<forall>obj \<in> set (map fst ?resolved). 12 + length (display_name ?rt obj) = 13"
    using display_name_A(2) [of _ h] cls1 len by (auto simp: bytes_of_def)
  have size: "snapshot_size ?rt (map fst ?resolved) = 1668"
    unfolding snapshot_size_def sum_list_const [OF dn] by simp
  have names: "snapshot_names ?rt ?resolved p3 j =
           Inr (Some (wire_snapshot (map (\<lambda>e. (snd e, display_name ?rt (fst e))) ?resolved)),
                p3, delete_refs (map fst ?resolved) j)" for j
    by (rule snapshot_names_layout [OF _ _ P(2) nm])
       (simp_all only: size, simp_all add: demo_runtime_def)
  have entries: "map (\<lambda>e. (snd e, display_name ?rt (fst e))) ?resolved
                   = map (\<lambda>k. (make_tag 1 (of_nat k), bytes_of ''A'')) [1..<129]"
  proof -
    have "map (\<lambda>e. (snd e, display_name ?rt (fst e))) ?resolved
            = map (\<lambda>i. (make_tag 1 (of_nat (Suc i)), bytes_of ''A'')) [0..<128]"
      using display_name_A(2) [of _ h] cls1 len by simp
    also have "\<dots> = map (\<lambda>k. (make_tag 1 (of_nat k), bytes_of ''A'')) (map Suc [0..<128])"
      by (simp only: map_map comp_def)
    also have "map Suc [0..<128] = [1..<129]"
      by (simp only: map_Suc_upt) simp
    finally show ?thesis .
  qed
  have "nativeSnapshotBytes ?rt True (Some (bytes_of ''A'')) ?p0 ?j0
          = snapshot_names ?rt (fst (resolve_tags ?rt col3 ?j3)) p3 (snd (resolve_tags ?rt col3 ?j3))"
    by (rule nativeSnapshotBytes_after_pass [OF _ _ chars target pass])
       (simp_all add: initial_process_def)
  then have "nativeSnapshotBytes ?rt True (Some (bytes_of ''A'')) ?p0 ?j0
          = Inr (Some (wire_snapshot
                         (map (\<lambda>k. (make_tag 1 (of_nat k), bytes_of ''A'')) [1..<129])),
                 p3, delete_refs (map fst ?resolved) (snd (resolve_tags ?rt col3 ?j3)))"
    unfolding res names entries .
  then show ?thesis
    unfolding h_def by blast
qed

theorem failed_append_gives_partial_snapshot_witness:
  "g_jvmti (initial_process [True, False]) \<and>
   (\<exists>out p' j'.
      nativeSnapshotBytes (demo_runtime (replicate 129 \<lparr>obj_tag = 0, obj_class = 1\<rparr>)) True
          (Some (bytes_of ''A'')) (initial_process [True, False])
          \<lparr>heap = replicate 129 \<lparr>obj_tag = 0, obj_class = 1\<rparr>, local_refs = []\<rparr>
        = Inr (Some out, p', j') \<and>
      take 4 out = [0, 0, 0, 128] \<and> length out = 1668)"
proof -
  let ?es = "map (\<lambda>k. (make_tag 1 (of_nat k) :: jlong, bytes_of ''A'')) [1..<129]"
  have n: "length ?es = 128" by simp
  have count: "take 4 (wire_snapshot ?es) = [0, 0, 0, 128]"
    unfolding wire_snapshot_def n by (simp add: be32_def)
  have "\<forall>e \<in> set ?es. length (wire_record e) = 13"
    by (auto simp: length_wire_record bytes_of_def)
  then have "sum_list (map (\<lambda>e. length (wire_record e)) ?es) = 13 * length ?es"
    by (rule sum_list_const)
  then have size: "length (wire_snapshot ?es) = 1668"
    unfolding wire_snapshot_def n by (simp add: length_concat length_be32 comp_def)
  from failed_append_gives_partial_snapshot count size show ?thesis
    by (auto simp: initial_process_def)
qed


section \<open>The filtered walk\<close>

lemma IterateThroughHeap_local_refs:
  "IterateThroughHeap rt klass cb u p j = (err, p', j', u') \<Longrightarrow> local_refs j' = local_refs j"
  by (auto simp: IterateThroughHeap_def split: if_splits prod.splits)

lemma mset_delete_refs:
  "mset (local_refs (delete_refs os j)) = mset (local_refs j) - mset (List.map_filter id os)"
proof (induction os j rule: delete_refs.induct)
  case (1 j)
  then show ?case by (simp add: List.map_filter_def)
next
  case (2 os j)
  then show ?case by (simp add: List.map_filter_def)
next
  case (3 ob os j)
  then show ?case by (simp add: List.map_filter_def DeleteLocalRef_def)
qed

lemma map_filter_id_map: "List.map_filter id (map f xs) = List.map_filter f xs"
  by (induction xs) (simp_all add: List.map_filter_def)

lemma mset_get_objects:
  "get_objects rt j ts = (Some rs, j') \<Longrightarrow>
     mset (local_refs j') = mset (local_refs j) + mset (List.map_filter fst rs)"
  by (auto simp: get_objects_def split: option.splits)

lemma other_epoch: "make_tag 2 l \<noteq> make_tag 3 l'"
proof
  assume "make_tag 2 l = make_tag 3 l'"
  then have "drop_bit 32 (make_tag 2 l) = drop_bit 32 (make_tag 3 l')" by simp
  then show False by (simp only: make_tag_high) simp
qed

lemma upt_from_1: "0 < n \<Longrightarrow> [0..<n] = 0 # [1..<n]"
  by (simp add: upt_conv_Cons)

lemma pass_A:
  fixes b :: obj
  assumes "obj_class b \<noteq> 1"
  shows "IterateThroughHeap (demo_runtime h0) (Some 1) heap_tagging_cb empty_collector
           \<lparr>g_jvmti = True, g_epoch = 2, g_local_counter = 1, alloc_plan = True # plan\<rparr>
           \<lparr>heap = \<lparr>obj_tag = 0, obj_class = 1\<rparr> # replicate n b, local_refs = refs\<rparr>
         = (False,
            \<lparr>g_jvmti = True, g_epoch = 2, g_local_counter = 2, alloc_plan = plan\<rparr>,
            \<lparr>heap = \<lparr>obj_tag = make_tag 2 1, obj_class = 1\<rparr> # replicate n b, local_refs = refs\<rparr>,
            \<lparr>tags = (replicate 128 0)[0 := make_tag 2 1], count = 1, capacity = 128,
               alloc_failed = False\<rparr>)"
proof -
  have rest: "visit_objects heap_tagging_cb (Some 1) (replicate n b) p u = (replicate n b, p, u)"
    for p u
    by (rule visit_unvisited) (use assms in \<open>simp add: visited_def\<close>)
  show ?thesis
    using rest
    by (simp add: IterateThroughHeap_def demo_runtime_def visited_def first_append set_slot_def)
qed

lemma collected_one:
  "collected_tags \<lparr>tags = (replicate 128 0)[0 := t], count = 1, capacity = 128,
      alloc_failed = False\<rparr> = [t]"
proof -
  have "replicate 128 (0::jlong) = 0 # replicate 127 0"
    by (simp add: replicate_numeral)
  then show ?thesis by (simp add: collected_tags_def)
qed

lemma resolved_A:
  assumes "obj_tag b = 0"
  shows "objects_with_tags (\<lparr>obj_tag = make_tag 2 1, obj_class = 1\<rparr> # replicate n b) [make_tag 2 1]
           = Some [(Some 0, make_tag 2 1)]"
proof -
  let ?h = "\<lparr>obj_tag = make_tag 2 1, obj_class = 1\<rparr> # replicate n b"
  have nz: "make_tag 2 1 \<noteq> 0"
    using make_tag_nonzero [of 1 2] by simp
  have "filter (\<lambda>i. obj_tag (?h ! i) \<in> set [make_tag 2 1]) [1..<Suc n] = []"
    using assms nz by (auto simp: filter_empty_conv nth_Cons' simp del: upt_Suc)
  then show ?thesis
    by (simp add: objects_with_tags_def upt_from_1 del: upt_Suc)
qed

lemma find_A_B:
  "Option.bind (Option.bind (Some (bytes_of ''A'')) (GetStringUTFChars (demo_runtime h)))
     (FindClass (demo_runtime h)) = Some 1"
  "Option.bind (Option.bind (Some (bytes_of ''B'')) (GetStringUTFChars (demo_runtime h)))
     (FindClass (demo_runtime h)) = Some 2"
  by (simp_all add: demo_runtime_def bytes_of_def word_unat_eq_iff)

lemma demo_GetObjectsWithTags: "GetObjectsWithTags (demo_runtime h) = objects_with_tags"
  by (simp add: demo_runtime_def)

lemma walk_class_A:
  fixes b :: obj
  assumes "obj_class b \<noteq> 1" "obj_tag b = 0"
  shows "walk_class (demo_runtime h0) (Some (bytes_of ''A''))
           \<lparr>g_jvmti = True, g_epoch = 1, g_local_counter = c, alloc_plan = True # True # plan\<rparr>
           \<lparr>heap = \<lparr>obj_tag = 0, obj_class = 1\<rparr> # replicate n b, local_refs = []\<rparr> [] 0 0
         = (Some ((replicate 65 None)[0 := Some 0], 1, 65),
            \<lparr>g_jvmti = True, g_epoch = 2, g_local_counter = 2, alloc_plan = plan\<rparr>,
            \<lparr>heap = \<lparr>obj_tag = make_tag 2 1, obj_class = 1\<rparr> # replicate n b,
               local_refs = [0]\<rparr>)"
  using find_A_B(1) [of h0] pass_A [OF assms(1), of h0 "True # plan" n "[]"]
    resolved_A [OF assms(2), of n]
  by (simp add: walk_class_def get_objects_def demo_GetObjectsWithTags collected_one Let_def
        List.map_filter_def c_alloc_def resize_def)

lemma pass_B:
  fixes h1 :: "obj list"
  assumes h1: "h1 = \<lparr>obj_tag = make_tag 2 1, obj_class = 1\<rparr> #
                      replicate 65 \<lparr>obj_tag = 0, obj_class = 2\<rparr>"
    and v: "visit_objects heap_tagging_cb (Some 2) h1
              \<lparr>g_jvmti = True, g_epoch = 3, g_local_counter = 1, alloc_plan = [True, False]\<rparr>
              empty_collector = (h2, p3, col3)"
  shows "alloc_plan p3 = [False]" and "sint (count col3) = 65"
    and "collected_tags col3 = map (\<lambda>k. make_tag 3 (of_nat k)) [1..<Suc 65]"
    and "h2 = retag (Some 2) 3 1 65 h1"
proof -
  let ?a = "\<lparr>obj_tag = make_tag 2 1, obj_class = 1\<rparr>"
  let ?b = "\<lparr>obj_tag = 0, obj_class = 2\<rparr>"
  let ?p0 = "\<lparr>g_jvmti = True, g_epoch = 3, g_local_counter = 1, alloc_plan = [True, False]\<rparr>"
  let ?p1 = "\<lparr>g_jvmti = True, g_epoch = 3, g_local_counter = 2, alloc_plan = [False]\<rparr>"
  let ?c1 = "\<lparr>tags = (replicate 128 0)[0 := make_tag 3 1], count = 1, capacity = 128,
               alloc_failed = False\<rparr>"
  have split: "replicate 65 ?b = ?b # replicate 64 ?b"
    by (simp add: replicate_numeral)
  have first: "heap_tagging_cb ?p0 (Some 0) empty_collector
                 = (JVMTI_ITERATION_CONTINUE, ?p1, Some (make_tag 3 1), ?c1)"
    by (rule first_append)
  have nf: "\<not> alloc_failed ?c1" by simp
  have room: "sint (count ?c1) + int (length (filter (eligible (Some 2)) (replicate 64 ?b)))
                \<le> sint (capacity ?c1)"
    using eligible_fresh [of 2] by simp
  from visit_room [OF nf room, of ?p1] obtain obs' p' col' where
    r: "visit_objects heap_tagging_cb (Some 2) (replicate 64 ?b) ?p1 ?c1 = (obs', p', col')"
       "\<not> alloc_failed col'" "alloc_plan p' = alloc_plan ?p1"
       "count col' = count ?c1 + of_nat (length (filter (eligible (Some 2)) (replicate 64 ?b)))"
    by blast
  have "visit_objects heap_tagging_cb (Some 2) (?a # ?b # replicate 64 ?b) ?p0 empty_collector
          = (?a # set_slot ?b (Some (make_tag 3 1)) # obs', p', col')"
    using first r(1) by (simp add: visited_def)
  with v have res: "col3 = col'" "p3 = p'"
    unfolding h1 split by simp_all
  have nfail: "\<not> alloc_failed col3" by (simp add: res r(2))
  show "alloc_plan p3 = [False]" by (simp add: res r(3))
  show "sint (count col3) = 65" using r(4) eligible_fresh [of 2] by (simp add: res)
  have ctr: "g_local_counter ?p0 = of_nat (Suc 0)" by simp
  have el: "length (filter (eligible (Some 2)) h1) = 65"
    using eligible_fresh [of 2] by (simp add: h1 eligible_def visited_def)
  from tagging_walk_inv [OF v col_inv_empty ctr] obtain m where
    m: "h2 = retag (Some 2) (g_epoch ?p0) (of_nat (Suc 0)) m h1"
       "\<not> alloc_failed col3 \<longrightarrow>
          m = length (filter (eligible (Some 2)) h1) \<and> col_inv col3 (0 + m) \<and>
          collected_tags col3 =
            collected_tags empty_collector @
            map (\<lambda>k. make_tag (g_epoch ?p0) (of_nat k)) [Suc 0 ..< Suc (0 + m)]"
    by blast
  from m(2) nfail el have m65: "m = 65" by simp
  from m(2) nfail show "collected_tags col3 = map (\<lambda>k. make_tag 3 (of_nat k)) [1..<Suc 65]"
    by (simp add: m65 collected_tags_empty del: upt_Suc)
  from m(1) show "h2 = retag (Some 2) 3 1 65 h1"
    by (simp add: m65)
qed

lemma resolved_B:
  assumes h1: "h1 = \<lparr>obj_tag = make_tag 2 1, obj_class = 1\<rparr> #
                      replicate 65 \<lparr>obj_tag = 0, obj_class = 2\<rparr>"
  shows "\<exists>rs. objects_with_tags (retag (Some 2) 3 1 65 h1)
                 (map (\<lambda>k. make_tag 3 (of_nat k)) [1..<Suc 65]) = Some rs \<and> length rs = 65"
proof -
  let ?a = "\<lparr>obj_tag = make_tag 2 1, obj_class = 1\<rparr>"
  let ?b = "\<lparr>obj_tag = 0, obj_class = 2\<rparr>"
  let ?Q = "\<lambda>i. eligible (Some 2) (h1 ! i) \<and> rank (Some 2) h1 i < 65"
  have el: "eligible (Some 2) ?b" by (rule eligible_fresh)
  have na: "\<not> eligible (Some 2) ?a" by (simp add: eligible_def visited_def)
  have old: "\<forall>ob \<in> set h1. \<not> eligible (Some 2) ob \<longrightarrow>
               obj_tag ob \<notin> set (map (\<lambda>k. make_tag 3 (of_nat k)) [1..<Suc 65])"
    using el other_epoch by (auto simp: h1)
  have Q0: "\<not> ?Q 0" using na by (simp add: h1)
  have Q: "?Q i" if "1 \<le> i" "i < 66" for i
  proof -
    from that have "i = Suc (i - 1)" "i - 1 < 65" by simp_all
    then obtain k where k: "i = Suc k" "k < 65" by blast
    have "h1 ! i = ?b" using k by (simp add: h1)
    moreover have "rank (Some 2) h1 i = k"
      unfolding h1 k(1) using na el k(2) by (simp add: rank_Cons_Suc rank_replicate)
    ultimately show ?thesis using el k by simp
  qed
  have len: "length h1 = 66" by (simp add: h1)
  have "filter ?Q [0..<66] = filter ?Q [1..<66]"
    using Q0 by (simp add: upt_from_1)
  also have "\<dots> = [1..<66]"
    by (rule filter_True) (use Q in auto)
  finally have f: "filter ?Q [0..<length h1] = [1..<66]"
    by (simp only: len)
  have "objects_with_tags (retag (Some 2) 3 1 65 h1)
           (map (\<lambda>k. make_tag 3 (of_nat k)) [1..<Suc 65])
         = Some (map (\<lambda>i. (Some i, make_tag 3 (of_nat (Suc (rank (Some 2) h1 i)))))
                  (filter ?Q [0..<length h1]))"
    by (rule resolved_after_pass [OF _ _ old]) simp_all
  then show ?thesis unfolding f by simp
qed

lemma walk_class_B:
  assumes h1: "h1 = \<lparr>obj_tag = make_tag 2 1, obj_class = 1\<rparr> #
                      replicate 65 \<lparr>obj_tag = 0, obj_class = 2\<rparr>"
  shows "fst (walk_class (demo_runtime h0) (Some (bytes_of ''B''))
                \<lparr>g_jvmti = True, g_epoch = 2, g_local_counter = 2, alloc_plan = [True, False]\<rparr>
                \<lparr>heap = h1, local_refs = [0]\<rparr> collected 1 65) = None"
proof -
  let ?p2 = "\<lparr>g_jvmti = True, g_epoch = 3, g_local_counter = 1, alloc_plan = [True, False]\<rparr>"
  obtain h2 p3 col3 where
    v: "visit_objects heap_tagging_cb (Some 2) h1 ?p2 empty_collector = (h2, p3, col3)"
    by (metis prod_cases3)
  note P = pass_B [OF h1 v]
  have it: "IterateThroughHeap (demo_runtime h0) (Some 2) heap_tagging_cb empty_collector ?p2
              \<lparr>heap = h1, local_refs = [0]\<rparr>
            = (False, p3, \<lparr>heap = h2, local_refs = [0]\<rparr>, col3)"
    using v by (simp add: IterateThroughHeap_def demo_runtime_def)
  from resolved_B [OF h1] obtain rs where
    rs: "objects_with_tags h2 (collected_tags col3) = Some rs" "length rs = 65"
    unfolding P(3) P(4) by blast
  show ?thesis
    using find_A_B(2) [of h0] it
    by (simp add: walk_class_def P(1) P(2) get_objects_def demo_GetObjectsWithTags rs Let_def
          c_alloc_def)
qed

text \<open>
  C6.  Where the growth of the reference buffer fails, the body of the loop returns
  NULL from the function after it has released the references of the class being
  walked, and only these: every local reference held when the class was entered, so
  every reference collected for the classes before it, is still held.
\<close>

theorem growth_failure_keeps_earlier_references:
  assumes "walk_class rt jName p j collected collectedCount collectedCap = (None, p', j')"
  shows "mset (local_refs j') = mset (local_refs j)"
proof -
  from assms obtain targetClass where
    tc: "Option.bind (Option.bind jName (GetStringUTFChars rt)) (FindClass rt) = Some targetClass"
    by (auto simp: walk_class_def split: option.splits)
  let ?p2 = "p\<lparr>g_epoch := g_epoch p + 1, g_local_counter := 1\<rparr>"
  obtain err p3 j3 col where
    it: "IterateThroughHeap rt (Some targetClass) heap_tagging_cb empty_collector ?p2 j
           = (err, p3, j3, col)"
    by (metis prod_cases4)
  have j3: "local_refs j3 = local_refs j"
    by (rule IterateThroughHeap_local_refs [OF it])
  obtain r j4 where go: "get_objects rt j3 (collected_tags col) = (r, j4)"
    by (cases "get_objects rt j3 (collected_tags col)")
  from assms tc it go obtain resolved where
    r: "r = Some resolved" and j': "j' = delete_refs (map fst resolved) j4"
    by (auto simp: walk_class_def Let_def split: if_splits option.splits prod.splits)
  from mset_get_objects [OF go [unfolded r]] j3
  have "mset (local_refs j4) = mset (local_refs j) + mset (List.map_filter fst resolved)"
    by simp
  then show ?thesis
    by (simp add: j' mset_delete_refs map_filter_id_map)
qed

theorem growth_failure_keeps_earlier_references_witness:
  "case nativeWalkHeapFiltered
          (demo_runtime (\<lparr>obj_tag = 0, obj_class = 1\<rparr> # replicate 65 \<lparr>obj_tag = 0, obj_class = 2\<rparr>))
          True (Some [Some (bytes_of ''A''), Some (bytes_of ''B'')])
          (initial_process [True, True, True, False])
          \<lparr>heap = \<lparr>obj_tag = 0, obj_class = 1\<rparr> # replicate 65 \<lparr>obj_tag = 0, obj_class = 2\<rparr>,
             local_refs = []\<rparr>
   of (r, p', j') \<Rightarrow> r = None \<and> mset (local_refs j') = {#0#}"
proof -
  let ?b = "\<lparr>obj_tag = 0, obj_class = 2\<rparr>"
  let ?h = "\<lparr>obj_tag = 0, obj_class = 1\<rparr> # replicate 65 ?b"
  let ?h1 = "\<lparr>obj_tag = make_tag 2 1, obj_class = 1\<rparr> # replicate 65 ?b"
  let ?rt = "demo_runtime ?h"
  let ?pA = "\<lparr>g_jvmti = True, g_epoch = 2, g_local_counter = 2, alloc_plan = [True, False]\<rparr>"
  let ?jA = "\<lparr>heap = ?h1, local_refs = [0]\<rparr>"
  let ?w = "walk_class ?rt (Some (bytes_of ''B'')) ?pA ?jA ((replicate 65 None)[0 := Some 0]) 1 65"
  have "fst ?w = None" by (rule walk_class_B [OF refl])
  then obtain p' j' where w: "?w = (None, p', j')"
    by (cases ?w) auto
  from growth_failure_keeps_earlier_references [OF w]
  have refs: "mset (local_refs j') = {#0#}" by simp
  have A: "walk_class ?rt (Some (bytes_of ''A''))
             \<lparr>g_jvmti = True, g_epoch = 1, g_local_counter = 1,
                alloc_plan = True # True # [True, False]\<rparr>
             \<lparr>heap = ?h, local_refs = []\<rparr> [] 0 0
           = (Some ((replicate 65 None)[0 := Some 0], 1, 65), ?pA, ?jA)"
    by (rule walk_class_A) simp_all
  have "nativeWalkHeapFiltered ?rt True (Some [Some (bytes_of ''A''), Some (bytes_of ''B'')])
          (initial_process [True, True, True, False]) \<lparr>heap = ?h, local_refs = []\<rparr>
        = (None, p', j')"
    using A w by (simp add: nativeWalkHeapFiltered_def initial_process_def)
  with refs show ?thesis by simp
qed

end
